theory Spec2Isabelle
  imports Main "HOL-Library.Sublist"
begin

section \<open>Strings and characters of the host language\<close>

text \<open>
  The program is TypeScript (\<^verbatim>\<open>src/agents/pi-embedded-runner/run/audio.ts\<close>) running
  on Node with POSIX paths. A string is modelled as a \<^typ>\<open>string\<close> whose characters are
  the code units \<open>0..255\<close> (Latin-1): on this range \<^verbatim>\<open>toLowerCase\<close>, \<^verbatim>\<open>trim\<close> and the
  regular-expression classes \<^verbatim>\<open>\s\<close>, \<^verbatim>\<open>\d\<close> and \<^verbatim>\<open>.\<close> are the functions below.
\<close>

definition code_unit :: "char \<Rightarrow> nat" where
  "code_unit c = of_char c"

definition isWhiteSpace :: "char \<Rightarrow> bool" where
  \<comment> \<open>WhiteSpace and LineTerminator: TAB, LF, VT, FF, CR, SP, NBSP.\<close>
  "isWhiteSpace c = (code_unit c \<in> {9, 10, 11, 12, 13, 32, 160})"

definition isLineTerminator :: "char \<Rightarrow> bool" where
  "isLineTerminator c = (code_unit c \<in> {10, 13})"

definition isDigit :: "char \<Rightarrow> bool" where
  "isDigit c = (48 \<le> code_unit c \<and> code_unit c \<le> 57)"

definition toLowerCase_char :: "char \<Rightarrow> char" where
  "toLowerCase_char c =
     (let n = code_unit c
      in if (65 \<le> n \<and> n \<le> 90) \<or> (192 \<le> n \<and> n \<le> 222 \<and> n \<noteq> 215)
         then char_of (n + 32) else c)"

definition toLowerCase :: "string \<Rightarrow> string" where
  "toLowerCase s = map toLowerCase_char s"

definition trim :: "string \<Rightarrow> string" where
  "trim s = rev (dropWhile isWhiteSpace (rev (dropWhile isWhiteSpace s)))"

definition startsWith :: "string \<Rightarrow> string \<Rightarrow> bool" where
  "startsWith s p = (take (length p) s = p)"

definition canonicalize :: "char \<Rightarrow> char" where
  \<comment> \<open>Canonicalize of a case-insensitive pattern without the unicode flag: the upper-case
      code unit, when that is again a single code unit of the same range.\<close>
  "canonicalize c =
     (let n = code_unit c
      in if (97 \<le> n \<and> n \<le> 122) \<or> (224 \<le> n \<and> n \<le> 254 \<and> n \<noteq> 247)
         then char_of (n - 32) else c)"

subsection \<open>The character functions on the eight bits of a code unit\<close>

text \<open>
  The same five functions, stated on the bits of the character (lowest bit first).
  Evaluation at concrete strings uses these equations.
\<close>

lemma canonicalize_bits [code]:
  "canonicalize (Char b0 b1 b2 b3 b4 b5 b6 b7) =
     (if b6 \<and> b5 \<and>
         (if b7 then \<not> (b0 \<and> b1 \<and> b2 \<and> b3 \<and> b4) \<and> \<not> (b4 \<and> \<not> b3 \<and> b2 \<and> b1 \<and> b0)
          else (b0 \<or> b1 \<or> b2 \<or> b3 \<or> b4) \<and> \<not> (b4 \<and> b3 \<and> (b2 \<or> (b1 \<and> b0))))
      then Char b0 b1 b2 b3 b4 False b6 b7
      else Char b0 b1 b2 b3 b4 b5 b6 b7)"
  by (cases b0; cases b1; cases b2; cases b3; cases b4; cases b5; cases b6; cases b7;
      simp add: canonicalize_def code_unit_def char_of_def bit_Suc_0_iff)

lemma toLowerCase_char_bits [code]:
  "toLowerCase_char (Char b0 b1 b2 b3 b4 b5 b6 b7) =
     (if b6 \<and> \<not> b5 \<and>
         (if b7 then \<not> (b0 \<and> b1 \<and> b2 \<and> b3 \<and> b4) \<and> \<not> (b4 \<and> \<not> b3 \<and> b2 \<and> b1 \<and> b0)
          else (b0 \<or> b1 \<or> b2 \<or> b3 \<or> b4) \<and> \<not> (b4 \<and> b3 \<and> (b2 \<or> (b1 \<and> b0))))
      then Char b0 b1 b2 b3 b4 True b6 b7
      else Char b0 b1 b2 b3 b4 b5 b6 b7)"
  by (cases b0; cases b1; cases b2; cases b3; cases b4; cases b5; cases b6; cases b7;
      simp add: toLowerCase_char_def code_unit_def char_of_def bit_Suc_0_iff)

lemma isDigit_bits [code]:
  "isDigit (Char b0 b1 b2 b3 b4 b5 b6 b7) =
     (\<not> b7 \<and> \<not> b6 \<and> b5 \<and> b4 \<and> \<not> (b3 \<and> (b2 \<or> b1)))"
  by (cases b0; cases b1; cases b2; cases b3; cases b4; cases b5; cases b6; cases b7;
      simp add: isDigit_def code_unit_def)

lemma isLineTerminator_bits [code]:
  "isLineTerminator (Char b0 b1 b2 b3 b4 b5 b6 b7) =
     (\<not> b7 \<and> \<not> b6 \<and> \<not> b5 \<and> \<not> b4 \<and> b3 \<and>
      ((\<not> b2 \<and> b1 \<and> \<not> b0) \<or> (b2 \<and> \<not> b1 \<and> b0)))"
  by (cases b0; cases b1; cases b2; cases b3; cases b4; cases b5; cases b6; cases b7;
      simp add: isLineTerminator_def code_unit_def)

lemma isWhiteSpace_bits [code]:
  "isWhiteSpace (Char b0 b1 b2 b3 b4 b5 b6 b7) =
     (\<not> b4 \<and> \<not> b6 \<and>
      ((\<not> b5 \<and> \<not> b7 \<and> b3 \<and> \<not> (b2 \<and> b1) \<and> (b2 \<or> b1 \<or> b0)) \<or>
       (b5 \<and> \<not> b0 \<and> \<not> b1 \<and> \<not> b2 \<and> \<not> b3)))"
  by (cases b0; cases b1; cases b2; cases b3; cases b4; cases b5; cases b6; cases b7;
      simp add: isWhiteSpace_def code_unit_def)

section \<open>Regular expressions\<close>

text \<open>
  The five patterns of \<^verbatim>\<open>detectAudioReferences\<close> use literals, character classes,
  quantified classes (\<^verbatim>\<open>x*\<close>, \<^verbatim>\<open>x+\<close>, \<^verbatim>\<open>x+?\<close>), sequence, alternation, optional
  parts, capture groups and the anchors \<^verbatim>\<open>^\<close> and \<^verbatim>\<open>$\<close>, all under the flag \<^verbatim>\<open>i\<close>.
  A matcher state is the current index, the input from that index on and the captures.
  \<open>rmatch r st\<close> lists the states in which \<open>r\<close> can end when started in \<open>st\<close>, in the
  order in which a backtracking matcher tries them: the head of the list is the match.
\<close>

type_synonym caps = "nat \<Rightarrow> string option"

type_synonym mstate = "nat \<times> string \<times> caps"

datatype rx =
    Str string
  | Cls "char \<Rightarrow> bool"
  | Many "char \<Rightarrow> bool" nat bool
  | Cat rx rx
  | Alt rx rx
  | Eps
  | Grp nat rx
  | Bol
  | Eol

fun strip_literal :: "string \<Rightarrow> string \<Rightarrow> string option" where
  "strip_literal [] s = Some s"
| "strip_literal (a # l) [] = None"
| "strip_literal (a # l) (b # s) =
     (if canonicalize a = canonicalize b then strip_literal l s else None)"

fun rmatch :: "rx \<Rightarrow> mstate \<Rightarrow> mstate list" where
  "rmatch (Str l) (i, s, c) =
     (case strip_literal l s of Some s' \<Rightarrow> [(i + length l, s', c)] | None \<Rightarrow> [])"
| "rmatch (Cls p) (i, s, c) =
     (case s of [] \<Rightarrow> [] | x # s' \<Rightarrow> if p x then [(Suc i, s', c)] else [])"
| "rmatch (Many p mn greedy) (i, s, c) =
     (let n = length (takeWhile p s);
          ks = [mn..<Suc n]
      in map (\<lambda>k. (i + k, drop k s, c)) (if greedy then rev ks else ks))"
| "rmatch (Cat a b) st = concat (map (rmatch b) (rmatch a st))"
| "rmatch (Alt a b) st = rmatch a st @ rmatch b st"
| "rmatch Eps st = [st]"
| "rmatch (Grp n r) (i, s, c) =
     map (\<lambda>(j, s', c'). (j, s', c'(n \<mapsto> take (j - i) s))) (rmatch r (i, s, c))"
| "rmatch Bol (i, s, c) = (if i = 0 then [(i, s, c)] else [])"
| "rmatch Eol (i, s, c) = (if s = [] then [(i, s, c)] else [])"

fun seq :: "rx list \<Rightarrow> rx" where
  "seq [] = Eps"
| "seq [r] = r"
| "seq (r # rs) = Cat r (seq rs)"

fun alt :: "rx list \<Rightarrow> rx" where
  "alt [] = Cls (\<lambda>_. False)"
| "alt [r] = r"
| "alt (r # rs) = Alt r (alt rs)"

definition opt :: "rx \<Rightarrow> rx" where
  \<comment> \<open>\<^verbatim>\<open>r?\<close>: greedy, the part first and the empty match second.\<close>
  "opt r = Alt r Eps"

record rmatch_result =
  m_index :: nat
  m_end :: nat
  m_groups :: caps

text \<open>
  \<^verbatim>\<open>RegExp.prototype.exec\<close>: the leftmost start at or after \<open>lastIndex\<close> at which the
  pattern matches, or \<open>None\<close> (\<^verbatim>\<open>null\<close>). A global pattern stores \<open>m_end\<close> as its next
  \<open>lastIndex\<close>.
\<close>

fun exec_from :: "rx \<Rightarrow> nat \<Rightarrow> string \<Rightarrow> rmatch_result option" where
  "exec_from r i s =
     (case rmatch r (i, s, Map.empty) of
        (e, _, c) # _ \<Rightarrow> Some \<lparr>m_index = i, m_end = e, m_groups = c\<rparr>
      | [] \<Rightarrow> (case s of [] \<Rightarrow> None | _ # s' \<Rightarrow> exec_from r (Suc i) s'))"

declare exec_from.simps [simp del]

definition regexp_exec :: "rx \<Rightarrow> string \<Rightarrow> nat \<Rightarrow> rmatch_result option" where
  "regexp_exec r s lastIndex =
     (if length s < lastIndex then None else exec_from r lastIndex (drop lastIndex s))"

definition match0 :: "string \<Rightarrow> rmatch_result \<Rightarrow> string" where
  "match0 s m = take (m_end m - m_index m) (drop (m_index m) s)"

subsection \<open>The patterns of the source\<close>

definition EXT :: rx where
  \<comment> \<open>\<^verbatim>\<open>(?:mp3|wav|aac|flac|ogg|opus|m4a|mp4|mpeg|mpga|webm)\<close>\<close>
  "EXT = alt [Str ''mp3'', Str ''wav'', Str ''aac'', Str ''flac'', Str ''ogg'', Str ''opus'',
              Str ''m4a'', Str ''mp4'', Str ''mpeg'', Str ''mpga'', Str ''webm'']"

definition mediaAttachedPattern :: rx where
  \<comment> \<open>\<^verbatim>\<open>/\[media attached(?:\s+\d+\/\d+)?:\s*([^\]]+)\]/gi\<close>\<close>
  "mediaAttachedPattern =
     seq [Str ''[media attached'',
          opt (seq [Many isWhiteSpace 1 True, Many isDigit 1 True, Str ''/'', Many isDigit 1 True]),
          Str '':'', Many isWhiteSpace 0 True,
          Grp 1 (Many (\<lambda>c. c \<noteq> CHR '']'') 1 True),
          Str '']'']"

definition filesPlaceholderPattern :: rx where
  \<comment> \<open>\<^verbatim>\<open>/^\d+\s+files?$/i\<close>\<close>
  "filesPlaceholderPattern =
     seq [Bol, Many isDigit 1 True, Many isWhiteSpace 1 True, Str ''file'', opt (Str ''s''), Eol]"

definition markerPathPattern :: rx where
  \<comment> \<open>\<^verbatim>\<open>/^\s*(.+?\.(?:mp3|...|webm))\s*(?:\(|$|\|)/i\<close>\<close>
  "markerPathPattern =
     seq [Bol, Many isWhiteSpace 0 True,
          Grp 1 (seq [Many (\<lambda>c. \<not> isLineTerminator c) 1 False, Str ''.'', EXT]),
          Many isWhiteSpace 0 True,
          alt [Str ''('', Eol, Str ''|'']]"

definition fileUrlPattern :: rx where
  \<comment> \<open>\<^verbatim>\<open>/file:\/\/[^\s<>"'`\]]+\.(?:mp3|...|webm)/gi\<close>\<close>
  "fileUrlPattern =
     seq [Str ''file://'',
          Many (\<lambda>c. \<not> isWhiteSpace c \<and>
                     c \<notin> {CHR ''<'', CHR ''>'', CHR 0x22, CHR 0x27, CHR 0x60, CHR '']''}) 1 True,
          Str ''.'', EXT]"

definition pathPattern :: rx where
  \<comment> \<open>\<^verbatim>\<open>/(?:^|\s|["'`(])((\.\.?\/|[~/])[^\s"'`()[\]]*\.(?:mp3|...|webm))/gi\<close>\<close>
  "pathPattern =
     seq [alt [Bol, Cls isWhiteSpace, Cls (\<lambda>c. c \<in> {CHR 0x22, CHR 0x27, CHR 0x60, CHR ''(''})],
          Grp 1 (seq [Grp 2 (Alt (seq [Str ''.'', opt (Str ''.''), Str ''/''])
                                  (Cls (\<lambda>c. c \<in> {CHR ''~'', CHR ''/''}))),
                      Many (\<lambda>c. \<not> isWhiteSpace c \<and>
                                 c \<notin> {CHR 0x22, CHR 0x27, CHR 0x60, CHR ''('', CHR '')'',
                                      CHR ''['', CHR '']''}) 0 True,
                      Str ''.'', EXT])]"

section \<open>Node's path module (POSIX)\<close>

definition path_isAbsolute :: "string \<Rightarrow> bool" where
  "path_isAbsolute p = (case p of [] \<Rightarrow> False | c # _ \<Rightarrow> c = CHR ''/'')"

definition path_extname :: "string \<Rightarrow> string" where
  \<comment> \<open>\<^verbatim>\<open>path.extname\<close>: from the last dot of the last path component (trailing slashes
      skipped) to its end; empty when that component has no dot, starts with its only
      candidate dot, or is \<^verbatim>\<open>..\<close>.\<close>
  "path_extname p =
     (let base = rev (takeWhile (\<lambda>c. c \<noteq> CHR ''/'') (dropWhile (\<lambda>c. c = CHR ''/'') (rev p)));
          ext = CHR ''.'' # rev (takeWhile (\<lambda>c. c \<noteq> CHR ''.'') (rev base))
      in if CHR ''.'' \<notin> set base \<or> length ext = length base \<or> base = ''..'' then [] else ext)"

section \<open>Data model\<close>

datatype ref_kind = Path | Url

record DetectedAudioRef =
  raw :: string
  type :: ref_kind
  resolved :: string
  messageIndex :: "nat option"

type_synonym Buffer = "char list"

record AudioContent =
  content_type :: string
  data :: string
  mimeType :: string

record media =
  kind :: string
  contentType :: "string option"
  buffer :: Buffer

datatype exn = Error string

datatype io_event =
    SandboxAssert string string string
  | Stat string
  | LoadMedia string "nat option"

text \<open>
  The functions that \<^verbatim>\<open>audio.ts\<close> imports from other modules of the repository
  (\<^verbatim>\<open>resolveUserPath\<close>, \<^verbatim>\<open>assertSandboxPath\<close>, \<^verbatim>\<open>loadWebMedia\<close>) and the Node functions
  \<^verbatim>\<open>fileURLToPath\<close>, \<^verbatim>\<open>path.resolve\<close>, \<^verbatim>\<open>fs.stat\<close> and \<^verbatim>\<open>Buffer.toString\<close> (base64) are
  parameters of the model. \<^verbatim>\<open>fileURLToPath\<close> throws on a malformed URL (\<open>Inl\<close>). The three
  that touch the file system are asynchronous and may reject (\<open>Inl\<close>); their answer may
  depend on the calls made so far, so each one reads the list of earlier events.
  User-path expansion and \<^verbatim>\<open>path.resolve\<close> are taken to return a string for every string.
\<close>

record env =
  resolveUserPath :: "string \<Rightarrow> string"
  fileURLToPath :: "string \<Rightarrow> exn + string"
  path_resolve :: "string \<Rightarrow> string \<Rightarrow> string"
  assertSandboxPath :: "io_event list \<Rightarrow> string \<Rightarrow> string \<Rightarrow> string \<Rightarrow> exn + string"
  fs_stat :: "io_event list \<Rightarrow> string \<Rightarrow> exn + unit"
  loadWebMedia :: "io_event list \<Rightarrow> string \<Rightarrow> nat option \<Rightarrow> exn + media"
  toBase64 :: "Buffer \<Rightarrow> string"

section \<open>Detection\<close>

definition AUDIO_EXTENSIONS :: "string set" where
  "AUDIO_EXTENSIONS = {''.mp3'', ''.wav'', ''.aac'', ''.flac'', ''.ogg'', ''.opus'', ''.m4a'',
                       ''.mp4'', ''.mpeg'', ''.mpga'', ''.webm''}"

definition isAudioExtension :: "string \<Rightarrow> bool" where
  "isAudioExtension filePath = (toLowerCase (path_extname filePath) \<in> AUDIO_EXTENSIONS)"

type_synonym detect_state = "DetectedAudioRef list \<times> string set"

definition addPathRef :: "env \<Rightarrow> string \<Rightarrow> detect_state \<Rightarrow> detect_state" where
  "addPathRef E r st =
     (let trimmed = trim r; (refs, seen) = st
      in if trimmed = [] \<or> toLowerCase trimmed \<in> seen then st
         else if startsWith trimmed ''http://'' \<or> startsWith trimmed ''https://'' then st
         else if \<not> isAudioExtension trimmed then st
         else (refs @ [\<lparr>raw = trimmed, type = Path,
                         resolved = (if startsWith trimmed ''~'' then resolveUserPath E trimmed
                                     else trimmed),
                         messageIndex = None\<rparr>],
               insert (toLowerCase trimmed) seen))"

definition marker_token :: "rmatch_result \<Rightarrow> string option" where
  \<comment> \<open>The first loop up to its call of \<^verbatim>\<open>addPathRef\<close>: the argument of that call, or
      \<open>None\<close> when the iteration ends without it. Group 1 takes part in every match of
      both patterns, so the two \<open>None\<close> branches on a group are never taken.\<close>
  "marker_token m =
     (case m_groups m 1 of
        None \<Rightarrow> None
      | Some content \<Rightarrow>
          if regexp_exec filesPlaceholderPattern (trim content) 0 \<noteq> None then None
          else (case regexp_exec markerPathPattern content 0 of
                  None \<Rightarrow> None
                | Some pathMatch \<Rightarrow>
                    (case m_groups pathMatch 1 of
                       None \<Rightarrow> None
                     | Some g \<Rightarrow> if g = [] then None else Some (trim g))))"

definition marker_body :: "env \<Rightarrow> rmatch_result \<Rightarrow> detect_state \<Rightarrow> detect_state" where
  "marker_body E m st = (case marker_token m of None \<Rightarrow> st | Some t \<Rightarrow> addPathRef E t st)"

definition fileUrl_body :: "env \<Rightarrow> string \<Rightarrow> detect_state \<Rightarrow> detect_state" where
  "fileUrl_body E r st =
     (let (refs, seen) = st
      in if toLowerCase r \<in> seen then st
         else (case fileURLToPath E r of
                 Inr p \<Rightarrow> (refs @ [\<lparr>raw = r, type = Path, resolved = p, messageIndex = None\<rparr>],
                           insert (toLowerCase r) seen)
               | Inl _ \<Rightarrow> (refs, insert (toLowerCase r) seen)))"

definition path_token :: "rmatch_result \<Rightarrow> string option" where
  \<comment> \<open>\<^verbatim>\<open>if (match[1])\<close>: the first group, when it took part and is not empty.\<close>
  "path_token m =
     (case m_groups m 1 of
        None \<Rightarrow> None
      | Some g \<Rightarrow> if g = [] then None else Some g)"

definition path_body :: "env \<Rightarrow> rmatch_result \<Rightarrow> detect_state \<Rightarrow> detect_state" where
  "path_body E m st = (case path_token m of None \<Rightarrow> st | Some g \<Rightarrow> addPathRef E g st)"

subsection \<open>Every match of a global pattern ends after the index it was started from\<close>

fun minlen :: "rx \<Rightarrow> nat" where
  "minlen (Str l) = length l"
| "minlen (Cls p) = 1"
| "minlen (Many p mn g) = mn"
| "minlen (Cat a b) = minlen a + minlen b"
| "minlen (Alt a b) = min (minlen a) (minlen b)"
| "minlen Eps = 0"
| "minlen (Grp n r) = minlen r"
| "minlen Bol = 0"
| "minlen Eol = 0"

lemma strip_literal_drop: "strip_literal l s = Some s' \<Longrightarrow> length l \<le> length s \<and> s' = drop (length l) s"
  by (induction l s rule: strip_literal.induct) (auto split: if_splits)

lemma rmatch_StrE:
  "(j, s', c') \<in> set (rmatch (Str l) (i, s, c)) \<Longrightarrow>
     strip_literal l s = Some s' \<and> j = i + length l \<and> c' = c"
  by (cases "strip_literal l s") auto

lemma rmatch_ManyE:
  "(j, s', c') \<in> set (rmatch (Many p mn g) (i, s, c)) \<Longrightarrow>
     \<exists>k. j = i + k \<and> mn \<le> k \<and> k \<le> length (takeWhile p s) \<and> s' = drop k s \<and> c' = c"
  by (cases g) (auto simp: Let_def)

lemma rmatch_bounds:
  "(j, s', c') \<in> set (rmatch r (i, s, c)) \<Longrightarrow>
     i + minlen r \<le> j \<and> j \<le> i + length s \<and> s' = drop (j - i) s"
proof (induction r arbitrary: i s c j s' c')
  case (Str l)
  from rmatch_StrE [OF Str] strip_literal_drop [of l s s'] show ?case by simp
next
  case (Cls p)
  then show ?case by (auto split: list.splits if_splits)
next
  case (Many p mn g)
  have n: "length (takeWhile p s) \<le> length s"
    by (rule length_takeWhile_le)
  from rmatch_ManyE [OF Many.prems] obtain k
    where "j = i + k" "mn \<le> k" "k \<le> length (takeWhile p s)" "s' = drop k s"
    by blast
  with n show ?case by simp
next
  case (Cat a b)
  from Cat.prems obtain m sm cm where
    a: "(m, sm, cm) \<in> set (rmatch a (i, s, c))" and b: "(j, s', c') \<in> set (rmatch b (m, sm, cm))"
    by auto
  from Cat.IH(1) [OF a] have 1: "i + minlen a \<le> m" "m \<le> i + length s" "sm = drop (m - i) s"
    by simp_all
  from Cat.IH(2) [OF b] have 2: "m + minlen b \<le> j" "j \<le> m + length sm" "s' = drop (j - m) sm"
    by simp_all
  from 1 2 have "j \<le> i + length s" by simp
  moreover from 1 2 have "(j - m) + (m - i) = j - i" by simp
  with 1 2 have "s' = drop (j - i) s" by (simp add: add.commute)
  ultimately show ?case using 1 2 by simp
next
  case (Alt a b)
  from Alt.prems have "(j, s', c') \<in> set (rmatch a (i, s, c)) \<or> (j, s', c') \<in> set (rmatch b (i, s, c))"
    by simp
  then show ?case
  proof
    assume "(j, s', c') \<in> set (rmatch a (i, s, c))"
    from Alt.IH(1) [OF this] show ?thesis by (simp add: min_def)
  next
    assume "(j, s', c') \<in> set (rmatch b (i, s, c))"
    from Alt.IH(2) [OF this] show ?thesis by (simp add: min_def)
  qed
next
  case Eps
  then show ?case by simp
next
  case (Grp n r)
  from Grp.prems obtain c'' where "(j, s', c'') \<in> set (rmatch r (i, s, c))"
    by auto
  from Grp.IH [OF this] show ?case by simp
next
  case Bol
  then show ?case by (simp split: if_splits)
next
  case Eol
  then show ?case by (simp split: if_splits)
qed

lemma exec_from_bounds:
  "exec_from r i s = Some m \<Longrightarrow>
     i \<le> m_index m \<and> m_index m + minlen r \<le> m_end m \<and> m_end m \<le> i + length s"
proof (induction r i s rule: exec_from.induct)
  case (1 r i s)
  show ?case
  proof (cases "rmatch r (i, s, Map.empty)")
    case Nil
    with "1.prems" obtain x s' where s: "s = x # s'" and rec: "exec_from r (Suc i) s' = Some m"
      by (auto simp: exec_from.simps [of r i s] split: list.splits)
    from "1.IH" [OF Nil s rec] s show ?thesis by simp
  next
    case (Cons st rest)
    obtain e s' c where st: "st = (e, s', c)" by (cases st)
    with "1.prems" Cons have m: "m = \<lparr>m_index = i, m_end = e, m_groups = c\<rparr>"
      by (simp add: exec_from.simps [of r i s])
    from Cons st have "(e, s', c) \<in> set (rmatch r (i, s, Map.empty))" by simp
    from rmatch_bounds [OF this] m show ?thesis by simp
  qed
qed

lemma regexp_exec_bounds:
  "regexp_exec r s i = Some m \<Longrightarrow>
     i \<le> m_index m \<and> m_index m + minlen r \<le> m_end m \<and> m_end m \<le> length s"
proof -
  assume a: "regexp_exec r s i = Some m"
  then have le: "i \<le> length s" and "exec_from r i (drop i s) = Some m"
    by (simp_all add: regexp_exec_def split: if_splits)
  from exec_from_bounds [OF this(2)] le show ?thesis by simp
qed

lemma minlen_seq_pos: "0 < minlen r \<Longrightarrow> 0 < minlen (seq (r # rs))"
  by (cases rs) simp_all

lemma mediaAttachedPattern_minlen: "0 < minlen mediaAttachedPattern"
  unfolding mediaAttachedPattern_def by (rule minlen_seq_pos) simp

lemma fileUrlPattern_minlen: "0 < minlen fileUrlPattern"
  unfolding fileUrlPattern_def by (rule minlen_seq_pos) simp

lemma EXT_minlen: "minlen EXT = 3"
  by (simp add: EXT_def)

lemma pathPattern_minlen: "0 < minlen pathPattern"
  by (simp add: pathPattern_def EXT_minlen opt_def)

subsection \<open>The three scanning loops\<close>

text \<open>
  Each loop is \<^verbatim>\<open>while ((match = pattern.exec(prompt)) !== null) { ... }\<close> on a global
  pattern: \<open>i\<close> is the pattern's \<open>lastIndex\<close>, which the loop body never touches.
\<close>

function marker_loop :: "env \<Rightarrow> string \<Rightarrow> nat \<Rightarrow> detect_state \<Rightarrow> detect_state" where
  "marker_loop E prompt i st =
     (case regexp_exec mediaAttachedPattern prompt i of
        None \<Rightarrow> st
      | Some m \<Rightarrow> marker_loop E prompt (m_end m) (marker_body E m st))"
  by pat_completeness auto
termination
proof (relation "measure (\<lambda>(E, prompt, i, st). length prompt - i)")
  fix E :: env and prompt i and st :: detect_state and m
  assume "regexp_exec mediaAttachedPattern prompt i = Some m"
  from regexp_exec_bounds [OF this] mediaAttachedPattern_minlen
  show "((E, prompt, m_end m, marker_body E m st), (E, prompt, i, st))
          \<in> measure (\<lambda>(E, prompt, i, st). length prompt - i)"
    by simp arith
qed simp

function fileUrl_loop :: "env \<Rightarrow> string \<Rightarrow> nat \<Rightarrow> detect_state \<Rightarrow> detect_state" where
  "fileUrl_loop E prompt i st =
     (case regexp_exec fileUrlPattern prompt i of
        None \<Rightarrow> st
      | Some m \<Rightarrow> fileUrl_loop E prompt (m_end m) (fileUrl_body E (match0 prompt m) st))"
  by pat_completeness auto
termination
proof (relation "measure (\<lambda>(E, prompt, i, st). length prompt - i)")
  fix E :: env and prompt i and st :: detect_state and m
  assume "regexp_exec fileUrlPattern prompt i = Some m"
  from regexp_exec_bounds [OF this] fileUrlPattern_minlen
  show "((E, prompt, m_end m, fileUrl_body E (match0 prompt m) st), (E, prompt, i, st))
          \<in> measure (\<lambda>(E, prompt, i, st). length prompt - i)"
    by simp arith
qed simp

function path_loop :: "env \<Rightarrow> string \<Rightarrow> nat \<Rightarrow> detect_state \<Rightarrow> detect_state" where
  "path_loop E prompt i st =
     (case regexp_exec pathPattern prompt i of
        None \<Rightarrow> st
      | Some m \<Rightarrow> path_loop E prompt (m_end m) (path_body E m st))"
  by pat_completeness auto
termination
proof (relation "measure (\<lambda>(E, prompt, i, st). length prompt - i)")
  fix E :: env and prompt i and st :: detect_state and m
  assume "regexp_exec pathPattern prompt i = Some m"
  from regexp_exec_bounds [OF this] pathPattern_minlen
  show "((E, prompt, m_end m, path_body E m st), (E, prompt, i, st))
          \<in> measure (\<lambda>(E, prompt, i, st). length prompt - i)"
    by simp arith
qed simp

declare marker_loop.simps [simp del] fileUrl_loop.simps [simp del] path_loop.simps [simp del]

definition detectAudioReferences :: "env \<Rightarrow> string \<Rightarrow> DetectedAudioRef list" where
  "detectAudioReferences E prompt =
     fst (path_loop E prompt 0 (fileUrl_loop E prompt 0 (marker_loop E prompt 0 ([], {}))))"

subsection \<open>The candidates of a prompt, in scan order\<close>

text \<open>
  The matches that the loop \<^verbatim>\<open>while ((match = pattern.exec(prompt)) !== null)\<close> visits,
  from \<open>lastIndex = i\<close> on, and with them the candidates of the three loops: the
  arguments of \<^verbatim>\<open>addPathRef\<close> in the first and the third, the matched text in the second.
  The three global patterns match no empty string, so the list stops only when
  \<^verbatim>\<open>exec\<close> returns \<^verbatim>\<open>null\<close> (lemmas \<open>marker_loop_fold\<close>, \<open>fileUrl_loop_fold\<close> and
  \<open>path_loop_fold\<close> below).
\<close>

function all_matches :: "rx \<Rightarrow> string \<Rightarrow> nat \<Rightarrow> rmatch_result list" where
  "all_matches r s i =
     (case regexp_exec r s i of
        None \<Rightarrow> []
      | Some m \<Rightarrow> if i < m_end m then m # all_matches r s (m_end m) else [m])"
  by pat_completeness auto
termination
proof (relation "measure (\<lambda>(r, s, i). length s - i)")
  fix r s i m
  assume "regexp_exec r s i = Some m" and "i < m_end m"
  with regexp_exec_bounds [of r s i m]
  show "((r, s, m_end m), (r, s, i)) \<in> measure (\<lambda>(r, s, i). length s - i)"
    by simp arith
qed simp

declare all_matches.simps [simp del]

definition marker_tokens :: "string \<Rightarrow> string list" where
  "marker_tokens prompt = List.map_filter marker_token (all_matches mediaAttachedPattern prompt 0)"

definition fileUrl_matches :: "string \<Rightarrow> string list" where
  "fileUrl_matches prompt = map (match0 prompt) (all_matches fileUrlPattern prompt 0)"

definition path_tokens :: "string \<Rightarrow> string list" where
  "path_tokens prompt = List.map_filter path_token (all_matches pathPattern prompt 0)"

definition admissible :: "string \<Rightarrow> bool" where
  \<comment> \<open>The checks of \<^verbatim>\<open>addPathRef\<close> other than the one on \<^verbatim>\<open>seen\<close>.\<close>
  "admissible t =
     (trim t \<noteq> [] \<and> \<not> startsWith (trim t) ''http://'' \<and> \<not> startsWith (trim t) ''https://'' \<and>
      isAudioExtension (trim t))"

definition has_audio_suffix :: "string \<Rightarrow> bool" where
  \<comment> \<open>The text ends, in any letter case, with one of the recognized extensions.\<close>
  "has_audio_suffix t = (\<exists>e \<in> AUDIO_EXTENSIONS. suffix e (toLowerCase t))"








text \<open>
  For the statements below: the dedup keys of a list of references, the reference that
  \<^verbatim>\<open>addPathRef\<close> builds from a candidate, and what a pattern accepts (a string it can
  consume, anchors ignored) together with the patterns inside its capture groups.
\<close>

definition keys :: "DetectedAudioRef list \<Rightarrow> string list" where
  "keys refs = map (\<lambda>r. toLowerCase (raw r)) refs"

definition path_ref :: "env \<Rightarrow> string \<Rightarrow> DetectedAudioRef" where
  "path_ref E t =
     \<lparr>raw = trim t, type = Path,
      resolved = (if startsWith (trim t) ''~'' then resolveUserPath E (trim t) else trim t),
      messageIndex = None\<rparr>"

fun accepts :: "rx \<Rightarrow> string \<Rightarrow> bool" where
  "accepts (Str l) w = (map canonicalize w = map canonicalize l)"
| "accepts (Cls p) w = (\<exists>c. w = [c] \<and> p c)"
| "accepts (Many p mn g) w = (mn \<le> length w \<and> (\<forall>c\<in>set w. p c))"
| "accepts (Cat a b) w = (\<exists>u v. w = u @ v \<and> accepts a u \<and> accepts b v)"
| "accepts (Alt a b) w = (accepts a w \<or> accepts b w)"
| "accepts Eps w = (w = [])"
| "accepts (Grp n r) w = accepts r w"
| "accepts Bol w = (w = [])"
| "accepts Eol w = (w = [])"

lemmas accepts_simps = accepts.simps

declare accepts.simps [simp del]

fun group_bodies :: "nat \<Rightarrow> rx \<Rightarrow> rx set" where
  "group_bodies n (Cat a b) = group_bodies n a \<union> group_bodies n b"
| "group_bodies n (Alt a b) = group_bodies n a \<union> group_bodies n b"
| "group_bodies n (Grp k r) = (if n = k then {r} else {}) \<union> group_bodies n r"
| "group_bodies n r = {}"

section \<open>Loading\<close>

record load_options =
  maxBytes :: "nat option"
  sandboxRoot :: "string option"

definition options_sandboxRoot :: "load_options option \<Rightarrow> string option" where
  \<comment> \<open>\<^verbatim>\<open>options?.sandboxRoot\<close>\<close>
  "options_sandboxRoot options = (case options of None \<Rightarrow> None | Some opts \<Rightarrow> sandboxRoot opts)"

definition options_maxBytes :: "load_options option \<Rightarrow> nat option" where
  \<comment> \<open>\<^verbatim>\<open>options?.maxBytes\<close>\<close>
  "options_maxBytes options = (case options of None \<Rightarrow> None | Some opts \<Rightarrow> maxBytes opts)"

text \<open>
  The statements inside the outer \<^verbatim>\<open>try\<close> of \<^verbatim>\<open>loadAudioFromRef\<close>, in three parts:
  the resolution of a relative path, the sandbox check and the rest. Each result is the
  returned value (\<open>Inr\<close>) or the exception that leaves the block (\<open>Inl\<close>), together
  with the events so far. A condition on a string (\<^verbatim>\<open>options?.sandboxRoot\<close>) holds when
  the string is present and not empty. The calls of \<^verbatim>\<open>log.debug\<close> only write diagnostics
  and are left out.
\<close>

definition resolve_target :: "env \<Rightarrow> DetectedAudioRef \<Rightarrow> string \<Rightarrow> load_options option \<Rightarrow> string" where
  \<comment> \<open>\<^verbatim>\<open>if (ref.type === "path" && !path.isAbsolute(targetPath)) { ... }\<close>\<close>
  "resolve_target E ref workspaceDir options =
     (let targetPath = resolved ref
      in if type ref = Path \<and> \<not> path_isAbsolute targetPath
         then path_resolve E (case options_sandboxRoot options of
                                Some root \<Rightarrow> root
                              | None \<Rightarrow> workspaceDir) targetPath
         else targetPath)"

definition validate_target ::
  "env \<Rightarrow> DetectedAudioRef \<Rightarrow> load_options option \<Rightarrow> string \<Rightarrow> io_event list
     \<Rightarrow> string option \<times> io_event list" where
  \<comment> \<open>\<^verbatim>\<open>if (ref.type === "path" && options?.sandboxRoot) { try { ... } catch { return null } }\<close>:
      the path to go on with, or \<open>None\<close> for the \<^verbatim>\<open>return null\<close> of the handler.\<close>
  "validate_target E ref options targetPath h =
     (case options_sandboxRoot options of
        None \<Rightarrow> (Some targetPath, h)
      | Some root \<Rightarrow>
          if type ref = Path \<and> root \<noteq> []
          then (case assertSandboxPath E h targetPath root root of
                  Inr p \<Rightarrow> (Some p, h @ [SandboxAssert targetPath root root])
                | Inl err \<Rightarrow> (None, h @ [SandboxAssert targetPath root root]))
          else (Some targetPath, h))"

definition loadAudioFromRef_try ::
  "env \<Rightarrow> DetectedAudioRef \<Rightarrow> string \<Rightarrow> load_options option \<Rightarrow> io_event list
     \<Rightarrow> (exn + AudioContent option) \<times> io_event list" where
  "loadAudioFromRef_try E ref workspaceDir options h =
     (if type ref = Url then (Inr None, h)
      else
        case validate_target E ref options (resolve_target E ref workspaceDir options) h of
          (None, h1) \<Rightarrow> (Inr None, h1)
        | (Some targetPath, h1) \<Rightarrow>
            (case (if type ref = Path then (fs_stat E h1 targetPath, h1 @ [Stat targetPath])
                   else (Inr (), h1)) of
               (Inl err, h2) \<Rightarrow> (Inr None, h2)
             | (Inr _, h2) \<Rightarrow>
                 (let h3 = h2 @ [LoadMedia targetPath (options_maxBytes options)]
                  in case loadWebMedia E h2 targetPath (options_maxBytes options) of
                       Inl err \<Rightarrow> (Inl err, h3)
                     | Inr media \<Rightarrow>
                         if kind media \<noteq> ''audio'' \<and> kind media \<noteq> ''video''
                         then (Inr None, h3)
                         else (Inr (Some \<lparr>content_type = ''audio'',
                                          data = toBase64 E (buffer media),
                                          mimeType = (case contentType media of
                                                        Some ct \<Rightarrow> ct
                                                      | None \<Rightarrow> ''audio/mp3'')\<rparr>), h3))))"

definition loadAudioFromRef ::
  "env \<Rightarrow> DetectedAudioRef \<Rightarrow> string \<Rightarrow> load_options option \<Rightarrow> io_event list
     \<Rightarrow> (exn + AudioContent option) \<times> io_event list" where
  \<comment> \<open>\<^verbatim>\<open>try { ... } catch (err) { log.debug(...); return null; }\<close>\<close>
  "loadAudioFromRef E ref workspaceDir options h =
     (case loadAudioFromRef_try E ref workspaceDir options h of
        (Inl err, h') \<Rightarrow> (Inr None, h')
      | (Inr result, h') \<Rightarrow> (Inr result, h'))"

section \<open>The batch\<close>

record model_descriptor =
  input :: "string list option"

record detect_params = load_options +
  prompt :: string
  workspaceDir :: string
  model :: model_descriptor
  existingAudio :: "AudioContent list option"

record BatchResult =
  audio :: "AudioContent list"
  loadedCount :: nat
  skippedCount :: nat

definition modelSupportsAudio :: "model_descriptor \<Rightarrow> bool" where
  "modelSupportsAudio m =
     (case input m of None \<Rightarrow> False | Some xs \<Rightarrow> ''audio'' \<in> set xs \<or> ''image'' \<in> set xs)"

text \<open>
  The \<^verbatim>\<open>for (const ref of allRefs)\<close> loop with its three variables. An exception of
  \<^verbatim>\<open>await loadAudioFromRef(...)\<close> would leave the loop and the function.
\<close>

fun load_loop ::
  "env \<Rightarrow> detect_params \<Rightarrow> DetectedAudioRef list \<Rightarrow> BatchResult \<Rightarrow> io_event list
     \<Rightarrow> (exn + BatchResult) \<times> io_event list" where
  "load_loop E params [] acc h = (Inr acc, h)"
| "load_loop E params (ref # refs) acc h =
     (case loadAudioFromRef E ref (workspaceDir params)
             (Some \<lparr>maxBytes = maxBytes params, sandboxRoot = sandboxRoot params\<rparr>) h of
        (Inl err, h') \<Rightarrow> (Inl err, h')
      | (Inr (Some a), h') \<Rightarrow>
          load_loop E params refs (acc\<lparr>audio := audio acc @ [a], loadedCount := loadedCount acc + 1\<rparr>) h'
      | (Inr None, h') \<Rightarrow>
          load_loop E params refs (acc\<lparr>skippedCount := skippedCount acc + 1\<rparr>) h')"

definition detectAndLoadPromptAudio ::
  "env \<Rightarrow> detect_params \<Rightarrow> io_event list \<Rightarrow> (exn + BatchResult) \<times> io_event list" where
  "detectAndLoadPromptAudio E params h =
     (if \<not> modelSupportsAudio (model params)
      then (Inr \<lparr>audio = [], loadedCount = 0, skippedCount = 0\<rparr>, h)
      else
        let promptRefs = detectAudioReferences E (prompt params);
            allRefs = promptRefs
        in if length allRefs = 0
           then (Inr \<lparr>audio = (case existingAudio params of Some a \<Rightarrow> a | None \<Rightarrow> []),
                      loadedCount = 0, skippedCount = 0\<rparr>, h)
           else load_loop E params allRefs
                  \<lparr>audio = (case existingAudio params of Some a \<Rightarrow> a | None \<Rightarrow> []),
                   loadedCount = 0, skippedCount = 0\<rparr> h)"

text \<open>
  What the loader answers for each reference of a batch, in order: the value the loop
  tests with \<^verbatim>\<open>if (audio)\<close>. The events of one call are the history of the next.
\<close>

fun load_outcomes ::
  "env \<Rightarrow> detect_params \<Rightarrow> DetectedAudioRef list \<Rightarrow> io_event list \<Rightarrow> AudioContent option list" where
  "load_outcomes E params [] h = []"
| "load_outcomes E params (ref # refs) h =
     (case loadAudioFromRef E ref (workspaceDir params)
             (Some \<lparr>maxBytes = maxBytes params, sandboxRoot = sandboxRoot params\<rparr>) h of
        (Inr r, h') \<Rightarrow> r # load_outcomes E params refs h'
      | (Inl err, h') \<Rightarrow> [])"

section \<open>A sample environment\<close>

text \<open>
  The model is evaluated at concrete inputs in this environment: a home directory
  \<^verbatim>\<open>/home/user\<close>, file URLs with an empty host and no escapes, a sandbox check by
  prefix that resolves one symbolic link, five files and one buffer content with its
  base64 text.
\<close>

definition sample_env :: env where
  "sample_env =
     \<lparr>resolveUserPath = (\<lambda>p. ''/home/user'' @ drop 1 p),
      fileURLToPath = (\<lambda>u. if toLowerCase (take 8 u) = ''file:///'' then Inr (drop 7 u)
                            else Inl (Error ''File URL host must be localhost or empty'')),
      path_resolve = (\<lambda>root p. root @ ''/'' @ (if take 2 p = ''./'' then drop 2 p else p)),
      assertSandboxPath = (\<lambda>h filePath cwd root.
         if take (Suc (length root)) filePath = root @ ''/''
         then Inr (if filePath = ''/ws/link.wav'' then ''/ws/ok.wav'' else filePath)
         else Inl (Error ''Path escapes sandbox root'')),
      fs_stat = (\<lambda>h p.
         if p \<in> {''/ws/ok.wav'', ''/ws/clip.mp4'', ''/ws/pic.mp3'', ''/ws/big.mp3'', ''/etc/secret.mp3''}
         then Inr () else Inl (Error ''ENOENT'')),
      loadWebMedia = (\<lambda>h p mb.
         if p = ''/ws/big.mp3'' then Inl (Error ''Media exceeds the byte limit'')
         else if p = ''/ws/pic.mp3'' then Inr \<lparr>kind = ''image'', contentType = Some ''image/png'', buffer = ''abc''\<rparr>
         else if p = ''/ws/clip.mp4'' then Inr \<lparr>kind = ''video'', contentType = None, buffer = ''abc''\<rparr>
         else Inr \<lparr>kind = ''audio'', contentType = Some ''audio/wav'', buffer = ''abc''\<rparr>),
      toBase64 = (\<lambda>b. if b = ''abc'' then ''YWJj'' else [])\<rparr>"

definition sample_params :: "string \<Rightarrow> string option \<Rightarrow> string list \<Rightarrow> detect_params" where
  "sample_params text root modalities =
     \<lparr>maxBytes = None, sandboxRoot = root, prompt = text, workspaceDir = ''/ws'',
      model = \<lparr>input = Some modalities\<rparr>,
      existingAudio = Some [\<lparr>content_type = ''audio'', data = ''AAAA'', mimeType = ''audio/ogg''\<rparr>]\<rparr>"

definition sample_ref :: "string \<Rightarrow> DetectedAudioRef" where
  "sample_ref p = \<lparr>raw = p, type = Path, resolved = p, messageIndex = None\<rparr>"

definition sample_options :: "string option \<Rightarrow> load_options option" where
  "sample_options root = Some \<lparr>maxBytes = None, sandboxRoot = root\<rparr>"

section \<open>Properties of detection\<close>

subsection \<open>The loops as folds over the candidates\<close>

lemma keys_simps [simp]:
  "keys [] = []" "keys (r # rs) = toLowerCase (raw r) # keys rs" "keys (xs @ ys) = keys xs @ keys ys"
  by (simp_all add: keys_def)

lemma addPathRef_cases:
  "addPathRef E t (refs, seen) =
     (if admissible t \<and> toLowerCase (trim t) \<notin> seen
      then (refs @ [path_ref E t], insert (toLowerCase (trim t)) seen)
      else (refs, seen))"
  by (auto simp: addPathRef_def admissible_def path_ref_def Let_def)

lemma fileUrl_body_cases:
  "fileUrl_body E u (refs, seen) =
     (if toLowerCase u \<in> seen then (refs, seen)
      else (case fileURLToPath E u of
              Inr p \<Rightarrow> (refs @ [\<lparr>raw = u, type = Path, resolved = p, messageIndex = None\<rparr>],
                        insert (toLowerCase u) seen)
            | Inl e \<Rightarrow> (refs, insert (toLowerCase u) seen)))"
  by (simp add: fileUrl_body_def)

lemma marker_loop_fold:
  "marker_loop E p i st = fold (marker_body E) (all_matches mediaAttachedPattern p i) st"
proof (induction E p i st rule: marker_loop.induct)
  case (1 E p i st)
  show ?case
  proof (cases "regexp_exec mediaAttachedPattern p i")
    case None
    then show ?thesis
      by (simp add: marker_loop.simps [of E p i] all_matches.simps [of _ p i])
  next
    case (Some m)
    from regexp_exec_bounds [OF Some] mediaAttachedPattern_minlen have "i < m_end m" by simp
    with Some "1.IH" [OF Some] show ?thesis
      by (simp add: marker_loop.simps [of E p i] all_matches.simps [of _ p i])
  qed
qed

lemma fileUrl_loop_fold:
  "fileUrl_loop E p i st =
     fold (\<lambda>m. fileUrl_body E (match0 p m)) (all_matches fileUrlPattern p i) st"
proof (induction E p i st rule: fileUrl_loop.induct)
  case (1 E p i st)
  show ?case
  proof (cases "regexp_exec fileUrlPattern p i")
    case None
    then show ?thesis
      by (simp add: fileUrl_loop.simps [of E p i] all_matches.simps [of _ p i])
  next
    case (Some m)
    from regexp_exec_bounds [OF Some] fileUrlPattern_minlen have "i < m_end m" by simp
    with Some "1.IH" [OF Some] show ?thesis
      by (simp add: fileUrl_loop.simps [of E p i] all_matches.simps [of _ p i])
  qed
qed

lemma path_loop_fold:
  "path_loop E p i st = fold (path_body E) (all_matches pathPattern p i) st"
proof (induction E p i st rule: path_loop.induct)
  case (1 E p i st)
  show ?case
  proof (cases "regexp_exec pathPattern p i")
    case None
    then show ?thesis
      by (simp add: path_loop.simps [of E p i] all_matches.simps [of _ p i])
  next
    case (Some m)
    from regexp_exec_bounds [OF Some] pathPattern_minlen have "i < m_end m" by simp
    with Some "1.IH" [OF Some] show ?thesis
      by (simp add: path_loop.simps [of E p i] all_matches.simps [of _ p i])
  qed
qed

lemma fold_token_body:
  "fold (\<lambda>m st. case tok m of None \<Rightarrow> st | Some t \<Rightarrow> addPathRef E t st) ms st =
     fold (addPathRef E) (List.map_filter tok ms) st"
  by (induction ms arbitrary: st) (simp_all add: List.map_filter_simps split: option.splits)

lemma detectAudioReferences_fold:
  "detectAudioReferences E p =
     fst (fold (addPathRef E) (path_tokens p)
           (fold (fileUrl_body E) (fileUrl_matches p)
             (fold (addPathRef E) (marker_tokens p) ([], {}))))"
proof -
  have m: "marker_body E = (\<lambda>m st. case marker_token m of None \<Rightarrow> st | Some t \<Rightarrow> addPathRef E t st)"
    by (intro ext) (simp add: marker_body_def)
  have b: "path_body E = (\<lambda>m st. case path_token m of None \<Rightarrow> st | Some t \<Rightarrow> addPathRef E t st)"
    by (intro ext) (simp add: path_body_def)
  have u: "fold (\<lambda>m. fileUrl_body E (match0 p m)) ms st = fold (fileUrl_body E) (map (match0 p) ms) st"
    for ms st by (simp add: fold_map comp_def)
  show ?thesis
    unfolding detectAudioReferences_def marker_loop_fold fileUrl_loop_fold path_loop_fold
    by (simp add: m b u fold_token_body marker_tokens_def fileUrl_matches_def path_tokens_def)
qed


subsection \<open>What a fold of candidates keeps\<close>

lemma raw_path_ref [simp]: "raw (path_ref E t) = trim t"
  by (simp add: path_ref_def)

lemma fold_addPathRef:
  "\<exists>new. fold (addPathRef E) ts (refs, seen) = (refs @ new, seen \<union> set (keys new)) \<and>
      subseq (map raw new) (map trim ts) \<and> distinct (keys new) \<and> set (keys new) \<inter> seen = {} \<and>
      (\<forall>t\<in>set ts. admissible t \<longrightarrow> toLowerCase (trim t) \<in> seen \<union> set (keys new)) \<and>
      (\<forall>r\<in>set new. \<exists>t\<in>set ts. admissible t \<and> r = path_ref E t)"
proof (induction ts arbitrary: refs seen)
  case Nil
  show ?case by (rule exI [of _ "[]"]) simp
next
  case (Cons t ts)
  show ?case
  proof (cases "admissible t \<and> toLowerCase (trim t) \<notin> seen")
    case True
    let ?k = "toLowerCase (trim t)"
    from Cons.IH [of "refs @ [path_ref E t]" "insert ?k seen"] obtain new where
      f: "fold (addPathRef E) ts (refs @ [path_ref E t], insert ?k seen) =
            ((refs @ [path_ref E t]) @ new, insert ?k seen \<union> set (keys new))"
      and s: "subseq (map raw new) (map trim ts)"
      and d: "distinct (keys new)"
      and i: "set (keys new) \<inter> insert ?k seen = {}"
      and a: "\<forall>t\<in>set ts. admissible t \<longrightarrow> toLowerCase (trim t) \<in> insert ?k seen \<union> set (keys new)"
      and r: "\<forall>r\<in>set new. \<exists>t\<in>set ts. admissible t \<and> r = path_ref E t"
      by blast
    let ?new = "path_ref E t # new"
    from True f have "fold (addPathRef E) (t # ts) (refs, seen) = (refs @ ?new, seen \<union> set (keys ?new))"
      by (simp add: addPathRef_cases)
    moreover from s have "subseq (map raw ?new) (map trim (t # ts))" by simp
    moreover from d i have "distinct (keys ?new)" by auto
    moreover from i True have "set (keys ?new) \<inter> seen = {}" by auto
    moreover from a True
    have "\<forall>u\<in>set (t # ts). admissible u \<longrightarrow> toLowerCase (trim u) \<in> seen \<union> set (keys ?new)"
      by auto
    moreover from r True have "\<forall>r\<in>set ?new. \<exists>u\<in>set (t # ts). admissible u \<and> r = path_ref E u"
      by auto
    ultimately show ?thesis by blast
  next
    case False
    from Cons.IH [of refs seen] obtain new where
      f: "fold (addPathRef E) ts (refs, seen) = (refs @ new, seen \<union> set (keys new))"
      and s: "subseq (map raw new) (map trim ts)"
      and d: "distinct (keys new)"
      and i: "set (keys new) \<inter> seen = {}"
      and a: "\<forall>t\<in>set ts. admissible t \<longrightarrow> toLowerCase (trim t) \<in> seen \<union> set (keys new)"
      and r: "\<forall>r\<in>set new. \<exists>t\<in>set ts. admissible t \<and> r = path_ref E t"
      by blast
    from False have "addPathRef E t (refs, seen) = (refs, seen)"
      by (simp only: addPathRef_cases if_False)
    with f have "fold (addPathRef E) (t # ts) (refs, seen) = (refs @ new, seen \<union> set (keys new))"
      by simp
    moreover from s have "subseq (map raw new) (map trim (t # ts))" by (simp add: list_emb_Cons)
    moreover from a False
    have "\<forall>u\<in>set (t # ts). admissible u \<longrightarrow> toLowerCase (trim u) \<in> seen \<union> set (keys new)"
      by auto
    moreover from r have "\<forall>r\<in>set new. \<exists>u\<in>set (t # ts). admissible u \<and> r = path_ref E u"
      by auto
    ultimately show ?thesis using d i by blast
  qed
qed

lemma fold_fileUrl_body:
  "\<exists>new seen'. fold (fileUrl_body E) us (refs, seen) = (refs @ new, seen') \<and>
      seen \<union> set (keys new) \<subseteq> seen' \<and>
      subseq (map raw new) us \<and> distinct (keys new) \<and> set (keys new) \<inter> seen = {} \<and>
      (\<forall>r\<in>set new. type r = Path \<and> raw r \<in> set us \<and> fileURLToPath E (raw r) = Inr (resolved r))"
proof (induction us arbitrary: refs seen)
  case Nil
  show ?case by (rule exI [of _ "[]"]) simp
next
  case (Cons u us)
  let ?k = "toLowerCase u"
  show ?case
  proof (cases "?k \<in> seen")
    case True
    from Cons.IH [of refs seen] obtain new seen' where
      f: "fold (fileUrl_body E) us (refs, seen) = (refs @ new, seen')"
      and rest: "seen \<union> set (keys new) \<subseteq> seen'" "subseq (map raw new) us" "distinct (keys new)"
        "set (keys new) \<inter> seen = {}"
        "\<forall>r\<in>set new. type r = Path \<and> raw r \<in> set us \<and> fileURLToPath E (raw r) = Inr (resolved r)"
      by blast
    from True f have "fold (fileUrl_body E) (u # us) (refs, seen) = (refs @ new, seen')"
      by (simp add: fileUrl_body_cases)
    moreover from rest(2) have "subseq (map raw new) (u # us)" by (rule list_emb_Cons)
    moreover from rest(5)
    have "\<forall>r\<in>set new. type r = Path \<and> raw r \<in> set (u # us) \<and> fileURLToPath E (raw r) = Inr (resolved r)"
      by auto
    ultimately show ?thesis using rest(1,3,4) by blast
  next
    case notseen: False
    show ?thesis
    proof (cases "fileURLToPath E u")
      case (Inl e)
      from Cons.IH [of refs "insert ?k seen"] obtain new seen' where
        f: "fold (fileUrl_body E) us (refs, insert ?k seen) = (refs @ new, seen')"
        and rest: "insert ?k seen \<union> set (keys new) \<subseteq> seen'" "subseq (map raw new) us"
          "distinct (keys new)" "set (keys new) \<inter> insert ?k seen = {}"
          "\<forall>r\<in>set new. type r = Path \<and> raw r \<in> set us \<and> fileURLToPath E (raw r) = Inr (resolved r)"
        by blast
      from notseen Inl f have "fold (fileUrl_body E) (u # us) (refs, seen) = (refs @ new, seen')"
        by (simp add: fileUrl_body_cases)
      moreover from rest(1) have "seen \<union> set (keys new) \<subseteq> seen'" by auto
      moreover from rest(2) have "subseq (map raw new) (u # us)" by (rule list_emb_Cons)
      moreover from rest(4) have "set (keys new) \<inter> seen = {}" by auto
      moreover from rest(5)
      have "\<forall>r\<in>set new. type r = Path \<and> raw r \<in> set (u # us) \<and> fileURLToPath E (raw r) = Inr (resolved r)"
        by auto
      ultimately show ?thesis using rest(3) by blast
    next
      case (Inr q)
      let ?r = "\<lparr>raw = u, type = Path, resolved = q, messageIndex = None\<rparr>"
      from Cons.IH [of "refs @ [?r]" "insert ?k seen"] obtain new seen' where
        f: "fold (fileUrl_body E) us (refs @ [?r], insert ?k seen) = ((refs @ [?r]) @ new, seen')"
        and rest: "insert ?k seen \<union> set (keys new) \<subseteq> seen'" "subseq (map raw new) us"
          "distinct (keys new)" "set (keys new) \<inter> insert ?k seen = {}"
          "\<forall>r\<in>set new. type r = Path \<and> raw r \<in> set us \<and> fileURLToPath E (raw r) = Inr (resolved r)"
        by blast
      let ?new = "?r # new"
      from notseen Inr f have "fold (fileUrl_body E) (u # us) (refs, seen) = (refs @ ?new, seen')"
        by (simp add: fileUrl_body_cases)
      moreover from rest(1) have "seen \<union> set (keys ?new) \<subseteq> seen'" by auto
      moreover from rest(2) have "subseq (map raw ?new) (u # us)" by simp
      moreover from rest(3,4) have "distinct (keys ?new)" by auto
      moreover from rest(4) notseen have "set (keys ?new) \<inter> seen = {}" by auto
      moreover from rest(5) Inr
      have "\<forall>r\<in>set ?new. type r = Path \<and> raw r \<in> set (u # us) \<and> fileURLToPath E (raw r) = Inr (resolved r)"
        by auto
      ultimately show ?thesis by blast
    qed
  qed
qed

lemma detect_decomposition:
  "\<exists>ms us bs. detectAudioReferences E p = ms @ us @ bs \<and>
      distinct (keys (ms @ us @ bs)) \<and>
      subseq (map raw ms) (map trim (marker_tokens p)) \<and>
      subseq (map raw us) (fileUrl_matches p) \<and>
      subseq (map raw bs) (map trim (path_tokens p)) \<and>
      (\<forall>t\<in>set (marker_tokens p). admissible t \<longrightarrow> toLowerCase (trim t) \<in> set (keys ms)) \<and>
      (\<forall>r\<in>set ms. \<exists>t\<in>set (marker_tokens p). admissible t \<and> r = path_ref E t) \<and>
      (\<forall>r\<in>set us. type r = Path \<and> raw r \<in> set (fileUrl_matches p) \<and>
                    fileURLToPath E (raw r) = Inr (resolved r)) \<and>
      (\<forall>r\<in>set bs. \<exists>t\<in>set (path_tokens p). admissible t \<and> r = path_ref E t)"
proof -
  from fold_addPathRef [of E "marker_tokens p" "[]" "{}"] obtain ms where
    m: "fold (addPathRef E) (marker_tokens p) ([], {}) = (ms, set (keys ms))"
    and ms: "subseq (map raw ms) (map trim (marker_tokens p))" "distinct (keys ms)"
      "\<forall>t\<in>set (marker_tokens p). admissible t \<longrightarrow> toLowerCase (trim t) \<in> set (keys ms)"
      "\<forall>r\<in>set ms. \<exists>t\<in>set (marker_tokens p). admissible t \<and> r = path_ref E t"
    by auto
  from fold_fileUrl_body [of E "fileUrl_matches p" ms "set (keys ms)"] obtain us seen2 where
    u: "fold (fileUrl_body E) (fileUrl_matches p) (ms, set (keys ms)) = (ms @ us, seen2)"
    and us: "set (keys ms) \<union> set (keys us) \<subseteq> seen2" "subseq (map raw us) (fileUrl_matches p)"
      "distinct (keys us)" "set (keys us) \<inter> set (keys ms) = {}"
      "\<forall>r\<in>set us. type r = Path \<and> raw r \<in> set (fileUrl_matches p) \<and>
                    fileURLToPath E (raw r) = Inr (resolved r)"
    by blast
  from fold_addPathRef [of E "path_tokens p" "ms @ us" seen2] obtain bs where
    b: "fold (addPathRef E) (path_tokens p) (ms @ us, seen2) = ((ms @ us) @ bs, seen2 \<union> set (keys bs))"
    and bs: "subseq (map raw bs) (map trim (path_tokens p))" "distinct (keys bs)"
      "set (keys bs) \<inter> seen2 = {}"
      "\<forall>r\<in>set bs. \<exists>t\<in>set (path_tokens p). admissible t \<and> r = path_ref E t"
    by blast
  from m u b have "detectAudioReferences E p = ms @ us @ bs"
    by (simp add: detectAudioReferences_fold)
  moreover from ms(2) us(1,3,4) bs(2,3) have "distinct (keys (ms @ us @ bs))"
    by auto
  ultimately show ?thesis using ms(1,3,4) us(2,5) bs(1,4) by blast
qed

subsection \<open>The first candidate of a key wins\<close>






subsection \<open>Matches are accepted strings\<close>

lemma strip_literal_canon:
  "strip_literal l s = Some s' \<Longrightarrow> map canonicalize (take (length l) s) = map canonicalize l"
  by (induction l s rule: strip_literal.induct) (auto split: if_splits)

lemma rmatch_accepts:
  "(j, s', c') \<in> set (rmatch r (i, s, c)) \<Longrightarrow> accepts r (take (j - i) s)"
proof (induction r arbitrary: i s c j s' c')
  case (Str l)
  from rmatch_StrE [OF Str] strip_literal_canon [of l s s'] show ?case by (simp add: accepts_simps)
next
  case (Cls p)
  then show ?case by (cases s) (auto simp: accepts_simps split: if_splits)
next
  case (Many p mn g)
  from rmatch_ManyE [OF Many] obtain k
    where k: "j = i + k" "mn \<le> k" "k \<le> length (takeWhile p s)"
    by blast
  have "length (takeWhile p s) \<le> length s" by (rule length_takeWhile_le)
  with k have "length (take k s) = k" by simp
  moreover have "\<forall>c\<in>set (take k s). p c"
  proof
    fix c assume "c \<in> set (take k s)"
    have "take k s = take k (takeWhile p s @ dropWhile p s)" by simp
    also from k(3) have "\<dots> = take k (takeWhile p s)" by (simp del: takeWhile_dropWhile_id)
    finally have "c \<in> set (take k (takeWhile p s))" using \<open>c \<in> set (take k s)\<close> by simp
    then show "p c" by (auto dest: in_set_takeD set_takeWhileD)
  qed
  ultimately show ?case using k by (simp add: accepts_simps)
next
  case (Cat a b)
  from Cat.prems obtain m sm cm where
    a: "(m, sm, cm) \<in> set (rmatch a (i, s, c))" and b: "(j, s', c') \<in> set (rmatch b (m, sm, cm))"
    by auto
  from rmatch_bounds [OF a] have 1: "i \<le> m" "m \<le> i + length s" "sm = drop (m - i) s" by simp_all
  from rmatch_bounds [OF b] have 2: "m \<le> j" by simp
  from Cat.IH(1) [OF a] have "accepts a (take (m - i) s)" .
  moreover from Cat.IH(2) [OF b] 1 have "accepts b (take (j - m) (drop (m - i) s))" by simp
  moreover from 1 2 have "j - i = (m - i) + (j - m)" by simp
  then have "take (j - i) s = take (m - i) s @ take (j - m) (drop (m - i) s)"
    by (simp only: take_add)
  ultimately show ?case unfolding accepts_simps by blast
next
  case (Alt a b)
  then show ?case by (auto simp: accepts_simps)
next
  case Eps
  then show ?case by (simp add: accepts_simps)
next
  case (Grp n r)
  from Grp.prems obtain c'' where "(j, s', c'') \<in> set (rmatch r (i, s, c))"
    by auto
  from Grp.IH [OF this] show ?case by (simp add: accepts_simps)
next
  case Bol
  then show ?case by (simp add: accepts_simps split: if_splits)
next
  case Eol
  then show ?case by (simp add: accepts_simps split: if_splits)
qed


lemma rmatch_caps:
  "(j, s', c') \<in> set (rmatch r (i, s, c)) \<Longrightarrow> c' n = Some v \<Longrightarrow>
     c n = Some v \<or> (\<exists>g\<in>group_bodies n r. accepts g v)"
proof (induction r arbitrary: i s c j s' c')
  case (Str l)
  from rmatch_StrE [OF Str.prems(1)] Str.prems(2) show ?case by simp
next
  case (Cls p)
  then show ?case by (cases s) (auto split: if_splits)
next
  case (Many p mn g)
  from rmatch_ManyE [OF Many.prems(1)] Many.prems(2) show ?case by auto
next
  case (Cat a b)
  from Cat.prems(1) obtain m sm cm where
    a: "(m, sm, cm) \<in> set (rmatch a (i, s, c))" and b: "(j, s', c') \<in> set (rmatch b (m, sm, cm))"
    by auto
  from Cat.IH(2) [OF b Cat.prems(2)] show ?case
  proof
    assume "cm n = Some v"
    from Cat.IH(1) [OF a this] show ?thesis by auto
  next
    assume "\<exists>g\<in>group_bodies n b. accepts g v"
    then show ?thesis by auto
  qed
next
  case (Alt a b)
  from Alt.prems(1) have "(j, s', c') \<in> set (rmatch a (i, s, c)) \<or> (j, s', c') \<in> set (rmatch b (i, s, c))"
    by simp
  then show ?case
  proof
    assume "(j, s', c') \<in> set (rmatch a (i, s, c))"
    from Alt.IH(1) [OF this Alt.prems(2)] show ?thesis by auto
  next
    assume "(j, s', c') \<in> set (rmatch b (i, s, c))"
    from Alt.IH(2) [OF this Alt.prems(2)] show ?thesis by auto
  qed
next
  case Eps
  then show ?case by simp
next
  case (Grp k r)
  from Grp.prems(1) obtain c'' where
    r: "(j, s', c'') \<in> set (rmatch r (i, s, c))" and c': "c' = c''(k \<mapsto> take (j - i) s)"
    by auto
  show ?case
  proof (cases "n = k")
    case True
    with c' Grp.prems(2) have "v = take (j - i) s" by simp
    with rmatch_accepts [OF r] True show ?thesis by simp
  next
    case False
    with c' Grp.prems(2) have "c'' n = Some v" by simp
    from Grp.IH [OF r this] show ?thesis by auto
  qed
next
  case Bol
  then show ?case by (simp split: if_splits)
next
  case Eol
  then show ?case by (simp split: if_splits)
qed

lemma exec_from_sound:
  "exec_from r i s = Some m \<Longrightarrow>
     \<exists>k s'. m_index m = i + k \<and> k \<le> length s \<and>
       (m_end m, s', m_groups m) \<in> set (rmatch r (m_index m, drop k s, Map.empty))"
proof (induction r i s rule: exec_from.induct)
  case (1 r i s)
  show ?case
  proof (cases "rmatch r (i, s, Map.empty)")
    case Nil
    with "1.prems" obtain x t where s: "s = x # t" and rec: "exec_from r (Suc i) t = Some m"
      by (auto simp: exec_from.simps [of r i s] split: list.splits)
    from "1.IH" [OF Nil s rec] obtain k s' where
      "m_index m = Suc i + k" "k \<le> length t"
      "(m_end m, s', m_groups m) \<in> set (rmatch r (m_index m, drop k t, Map.empty))"
      by blast
    with s have "m_index m = i + Suc k \<and> Suc k \<le> length s \<and>
       (m_end m, s', m_groups m) \<in> set (rmatch r (m_index m, drop (Suc k) s, Map.empty))"
      by simp
    then show ?thesis by blast
  next
    case (Cons st rest)
    obtain e s' c where st: "st = (e, s', c)" by (cases st)
    with "1.prems" Cons have m: "m = \<lparr>m_index = i, m_end = e, m_groups = c\<rparr>"
      by (simp add: exec_from.simps [of r i s])
    from Cons st have "(e, s', c) \<in> set (rmatch r (i, s, Map.empty))" by simp
    with m have "m_index m = i + 0 \<and> 0 \<le> length s \<and>
       (m_end m, s', m_groups m) \<in> set (rmatch r (m_index m, drop 0 s, Map.empty))"
      by simp
    then show ?thesis by blast
  qed
qed

lemma regexp_exec_sound:
  assumes "regexp_exec r s i = Some m"
  shows "accepts r (match0 s m)"
    and "m_groups m n = Some v \<Longrightarrow> \<exists>g\<in>group_bodies n r. accepts g v"
proof -
  from assms have le: "i \<le> length s" and e: "exec_from r i (drop i s) = Some m"
    by (simp_all add: regexp_exec_def split: if_splits)
  from exec_from_sound [OF e] obtain k s' where
    k: "m_index m = i + k" "k \<le> length (drop i s)"
    and r: "(m_end m, s', m_groups m) \<in> set (rmatch r (m_index m, drop k (drop i s), Map.empty))"
    by blast
  from k have d: "drop k (drop i s) = drop (m_index m) s" by (simp add: add.commute)
  from rmatch_accepts [OF r] d show "accepts r (match0 s m)"
    by (simp add: match0_def)
  assume "m_groups m n = Some v"
  from rmatch_caps [OF r this] show "\<exists>g\<in>group_bodies n r. accepts g v" by simp
qed

lemma all_matches_exec:
  "m \<in> set (all_matches r s i) \<Longrightarrow> \<exists>j. regexp_exec r s j = Some m"
proof (induction r s i rule: all_matches.induct)
  case (1 r s i)
  show ?case
  proof (cases "regexp_exec r s i")
    case None
    with "1.prems" show ?thesis by (simp add: all_matches.simps [of r s i])
  next
    case (Some m')
    show ?thesis
    proof (cases "m = m'")
      case True
      with Some show ?thesis by blast
    next
      case False
      with "1.prems" Some have "i < m_end m'" and "m \<in> set (all_matches r s (m_end m'))"
        by (auto simp: all_matches.simps [of r s i] split: if_splits)
      from "1.IH" [OF Some this] show ?thesis .
    qed
  qed
qed


subsection \<open>The extension gate\<close>

lemma accepts_CatE:
  assumes "accepts (Cat a b) w"
  obtains u v where "w = u @ v" "accepts a u" "accepts b v"
  using assms by (auto simp: accepts_simps)

lemma toLowerCase_char_canonicalize: "toLowerCase_char (canonicalize c) = toLowerCase_char c"
proof (cases c)
  case (Char b0 b1 b2 b3 b4 b5 b6 b7)
  then show ?thesis
    by (simp add: canonicalize_bits toLowerCase_char_bits)
qed

lemma isWhiteSpace_toLowerCase_char: "isWhiteSpace c \<Longrightarrow> toLowerCase_char c = c"
proof (cases c)
  case (Char b0 b1 b2 b3 b4 b5 b6 b7)
  then show "isWhiteSpace c \<Longrightarrow> toLowerCase_char c = c"
    by (auto simp: isWhiteSpace_bits toLowerCase_char_bits)
qed

lemma accepts_Str_toLowerCase: "accepts (Str l) w \<Longrightarrow> toLowerCase w = toLowerCase l"
proof -
  assume "accepts (Str l) w"
  then have "map toLowerCase_char (map canonicalize w) = map toLowerCase_char (map canonicalize l)"
    by (simp add: accepts_simps)
  then show ?thesis
    by (simp add: toLowerCase_def toLowerCase_char_canonicalize comp_def)
qed

lemma toLowerCase_append: "toLowerCase (u @ v) = toLowerCase u @ toLowerCase v"
  by (simp add: toLowerCase_def)

lemma accepts_EXT:
  "accepts EXT w \<Longrightarrow>
     toLowerCase w \<in> {''mp3'', ''wav'', ''aac'', ''flac'', ''ogg'', ''opus'', ''m4a'', ''mp4'',
                       ''mpeg'', ''mpga'', ''webm''}"
proof -
  have l: "toLowerCase ''mp3'' = ''mp3''" "toLowerCase ''wav'' = ''wav''" "toLowerCase ''aac'' = ''aac''"
    "toLowerCase ''flac'' = ''flac''" "toLowerCase ''ogg'' = ''ogg''" "toLowerCase ''opus'' = ''opus''"
    "toLowerCase ''m4a'' = ''m4a''" "toLowerCase ''mp4'' = ''mp4''" "toLowerCase ''mpeg'' = ''mpeg''"
    "toLowerCase ''mpga'' = ''mpga''" "toLowerCase ''webm'' = ''webm''"
    by code_simp+
  assume "accepts EXT w"
  then consider "accepts (Str ''mp3'') w" | "accepts (Str ''wav'') w" | "accepts (Str ''aac'') w"
    | "accepts (Str ''flac'') w" | "accepts (Str ''ogg'') w" | "accepts (Str ''opus'') w"
    | "accepts (Str ''m4a'') w" | "accepts (Str ''mp4'') w" | "accepts (Str ''mpeg'') w"
    | "accepts (Str ''mpga'') w" | "accepts (Str ''webm'') w"
    unfolding EXT_def alt.simps accepts_simps(5) by blast
  then show ?thesis
    by cases (simp_all only: accepts_Str_toLowerCase l insert_iff simp_thms)
qed

lemma accepts_dot_EXT:
  assumes "accepts (Cat (Str ''.'') EXT) w"
  shows "toLowerCase w \<in> AUDIO_EXTENSIONS"
proof -
  from assms obtain u v where w: "w = u @ v" and u: "accepts (Str ''.'') u" and v: "accepts EXT v"
    by (rule accepts_CatE)
  have "toLowerCase ''.'' = ''.''" by code_simp
  with accepts_Str_toLowerCase [OF u] have "toLowerCase u = ''.''" by simp
  with accepts_EXT [OF v] w show ?thesis
    by (auto simp: toLowerCase_append AUDIO_EXTENSIONS_def)
qed

lemma has_audio_suffix_Cat:
  assumes "accepts (Cat a b) w" and "\<And>v. accepts b v \<Longrightarrow> has_audio_suffix v"
  shows "has_audio_suffix w"
proof -
  from assms(1) obtain u v where w: "w = u @ v" and v: "accepts b v" by (rule accepts_CatE)
  from assms(2) [OF v] obtain e where "e \<in> AUDIO_EXTENSIONS" "suffix e (toLowerCase v)"
    by (auto simp: has_audio_suffix_def)
  with w show ?thesis
    by (auto simp: has_audio_suffix_def toLowerCase_append suffix_append)
qed

lemma has_audio_suffix_dot_EXT: "accepts (Cat (Str ''.'') EXT) w \<Longrightarrow> has_audio_suffix w"
  using accepts_dot_EXT [of w] by (auto simp: has_audio_suffix_def)

lemma fileUrlPattern_suffix:
  assumes "accepts fileUrlPattern w"
  shows "has_audio_suffix w"
  using assms unfolding fileUrlPattern_def seq.simps
proof (rule has_audio_suffix_Cat)
  fix v assume "accepts (Cat (Many (\<lambda>c. \<not> isWhiteSpace c \<and>
       c \<notin> {CHR ''<'', CHR ''>'', CHR 0x22, CHR 0x27, CHR 0x60, CHR '']''}) 1 True)
     (Cat (Str ''.'') EXT)) v"
  then show "has_audio_suffix v"
    by (rule has_audio_suffix_Cat) (rule has_audio_suffix_dot_EXT)
qed

lemma pathPattern_group1:
  assumes "g \<in> group_bodies 1 pathPattern" and "accepts g v"
  shows "has_audio_suffix v"
proof -
  from assms(1) obtain x y where "g = Cat x (Cat y (Cat (Str ''.'') EXT))"
    by (simp add: pathPattern_def opt_def EXT_def)
  with assms(2) have "accepts (Cat x (Cat y (Cat (Str ''.'') EXT))) v" by simp
  then show ?thesis
  proof (rule has_audio_suffix_Cat)
    fix w assume "accepts (Cat y (Cat (Str ''.'') EXT)) w"
    then show "has_audio_suffix w"
      by (rule has_audio_suffix_Cat) (rule has_audio_suffix_dot_EXT)
  qed
qed

lemma markerPathPattern_group1:
  assumes "g \<in> group_bodies 1 markerPathPattern" and "accepts g v"
  shows "has_audio_suffix v"
proof -
  from assms(1) obtain x where "g = Cat x (Cat (Str ''.'') EXT)"
    by (simp add: markerPathPattern_def opt_def EXT_def)
  with assms(2) have "accepts (Cat x (Cat (Str ''.'') EXT)) v" by simp
  then show ?thesis
    by (rule has_audio_suffix_Cat) (rule has_audio_suffix_dot_EXT)
qed


lemma audio_extension_chars: "e \<in> AUDIO_EXTENSIONS \<Longrightarrow> e \<noteq> [] \<and> (\<forall>c\<in>set e. \<not> isWhiteSpace c)"
  by (auto simp: AUDIO_EXTENSIONS_def isWhiteSpace_bits)

lemma dropWhile_append_keep:
  "x \<noteq> [] \<Longrightarrow> \<not> P (hd x) \<Longrightarrow> dropWhile P (u @ x) = dropWhile P u @ x"
  by (induction u) (auto simp: neq_Nil_conv)

lemma trim_append:
  assumes "x \<noteq> []" and "\<forall>c\<in>set x. \<not> isWhiteSpace c"
  shows "trim (u @ x) = dropWhile isWhiteSpace u @ x"
proof -
  from assms have h: "\<not> isWhiteSpace (hd x)" and l: "\<not> isWhiteSpace (last x)"
    by simp_all
  let ?d = "dropWhile isWhiteSpace u"
  from assms(1) h have 1: "dropWhile isWhiteSpace (u @ x) = ?d @ x"
    by (rule dropWhile_append_keep)
  from assms(1) l have "rev (?d @ x) \<noteq> []" "\<not> isWhiteSpace (hd (rev (?d @ x)))"
    by (simp_all add: hd_rev)
  then have "dropWhile isWhiteSpace (rev (?d @ x)) = rev (?d @ x)"
    by (cases "rev (?d @ x)") simp_all
  with 1 show ?thesis by (simp add: trim_def)
qed

lemma has_audio_suffix_trim:
  assumes "has_audio_suffix v"
  shows "has_audio_suffix (trim v)"
proof -
  from assms obtain e where e: "e \<in> AUDIO_EXTENSIONS" and s: "suffix e (toLowerCase v)"
    by (auto simp: has_audio_suffix_def)
  from s obtain u' where u': "toLowerCase v = u' @ e" by (auto simp: suffix_def)
  let ?n = "length v - length e"
  let ?u = "take ?n v" and ?x = "drop ?n v"
  from u' have len: "length v = length u' + length e"
    by (metis length_append length_map toLowerCase_def)
  from u' have "drop ?n (toLowerCase v) = e" using len by simp
  then have x: "toLowerCase ?x = e" by (simp add: toLowerCase_def drop_map)
  from audio_extension_chars [OF e] x have ne: "?x \<noteq> []" by (auto simp: toLowerCase_def)
  have ns: "\<forall>c\<in>set ?x. \<not> isWhiteSpace c"
  proof (intro ballI notI)
    fix c assume c: "c \<in> set ?x" and w: "isWhiteSpace c"
    from c have "toLowerCase_char c \<in> set (toLowerCase ?x)" by (simp add: toLowerCase_def)
    with x have "toLowerCase_char c \<in> set e" by simp
    with isWhiteSpace_toLowerCase_char [OF w] have "c \<in> set e" by simp
    with audio_extension_chars [OF e] w show False by blast
  qed
  from trim_append [OF ne ns, of ?u] have "trim v = dropWhile isWhiteSpace ?u @ ?x" by simp
  with x have "toLowerCase (trim v) = toLowerCase (dropWhile isWhiteSpace ?u) @ e"
    by (simp add: toLowerCase_append)
  with e show ?thesis by (auto simp: has_audio_suffix_def suffix_def)
qed

lemma set_map_filter_iff: "y \<in> set (List.map_filter f xs) \<longleftrightarrow> (\<exists>x\<in>set xs. f x = Some y)"
  by (induction xs) (auto simp: List.map_filter_simps split: option.splits)

lemma marker_token_suffix:
  assumes "marker_token m = Some t"
  shows "has_audio_suffix t"
proof -
  from assms obtain content pm g where
    pm: "regexp_exec markerPathPattern content 0 = Some pm"
    and g: "m_groups pm 1 = Some g" and t: "t = trim g"
    by (auto simp: marker_token_def split: option.splits if_splits)
  from regexp_exec_sound(2) [OF pm g] markerPathPattern_group1 have "has_audio_suffix g"
    by blast
  with t show ?thesis by (simp add: has_audio_suffix_trim)
qed

lemma path_tokens_suffix:
  assumes "t \<in> set (path_tokens p)"
  shows "has_audio_suffix t"
proof -
  from assms obtain m where m: "m \<in> set (all_matches pathPattern p 0)" and t: "path_token m = Some t"
    by (auto simp: path_tokens_def set_map_filter_iff)
  from all_matches_exec [OF m] obtain j where j: "regexp_exec pathPattern p j = Some m" ..
  from t have "m_groups m 1 = Some t"
    by (auto simp: path_token_def split: option.splits if_splits)
  from regexp_exec_sound(2) [OF j this] pathPattern_group1 show ?thesis by blast
qed

lemma marker_tokens_suffix: "t \<in> set (marker_tokens p) \<Longrightarrow> has_audio_suffix t"
  by (auto simp: marker_tokens_def set_map_filter_iff intro: marker_token_suffix)

lemma fileUrl_matches_suffix:
  assumes "u \<in> set (fileUrl_matches p)"
  shows "has_audio_suffix u"
proof -
  from assms obtain m where m: "m \<in> set (all_matches fileUrlPattern p 0)" and u: "u = match0 p m"
    by (auto simp: fileUrl_matches_def)
  from all_matches_exec [OF m] obtain j where "regexp_exec fileUrlPattern p j = Some m" ..
  from regexp_exec_sound(1) [OF this] u show ?thesis by (simp add: fileUrlPattern_suffix)
qed

text \<open>
  Claim C8 as stated fails when the extension of a candidate is what the code's own test
  \<open>isAudioExtension\<close> reads, namely \<^verbatim>\<open>path.extname\<close> in lower case. The file URL loop
  pushes its match without calling \<open>isAudioExtension\<close>, which \<open>addPathRef\<close> applies to
  every candidate of the marker and the bare path pattern. For a file whose whole name
  is a dot and an extension \<^verbatim>\<open>path.extname\<close> is empty: the match \<^verbatim>\<open>file:///.mp3\<close> of the
  file URL pattern has no recognized extension and is emitted all the same, while the
  bare path \<^verbatim>\<open>/.mp3\<close> of the same file is a candidate of its pattern and is dropped.
  Moreover a pattern ends its match at the first recognized ending, so that the word
  \<^verbatim>\<open>./notes.mp3.txt\<close> gives the candidate and the reference \<^verbatim>\<open>./notes.mp3\<close>.
\<close>

theorem detect_extension_gate_counterexample:
  "fileUrl_matches ''file:///.mp3'' = [''file:///.mp3''] \<and>
   path_extname ''file:///.mp3'' = [] \<and>
   \<not> isAudioExtension ''file:///.mp3'' \<and>
   detectAudioReferences sample_env ''file:///.mp3'' =
     [\<lparr>raw = ''file:///.mp3'', type = Path, resolved = ''/.mp3'', messageIndex = None\<rparr>] \<and>
   path_tokens ''/.mp3'' = [''/.mp3''] \<and>
   detectAudioReferences sample_env ''/.mp3'' = [] \<and>
   map raw (detectAudioReferences sample_env ''./notes.mp3.txt'') = [''./notes.mp3'']"
  by code_simp

text \<open>
  Claim C8, as the code has it. The candidate is the text a pattern extracts, and its
  extension is the one \<open>isAudioExtension\<close> tests. A candidate handed to \<open>addPathRef\<close>
  (marker and bare path pattern) whose trimmed text fails \<open>isAudioExtension\<close> leaves
  the references and the set of seen keys unchanged. A string that fails
  \<open>isAudioExtension\<close> and is not a match of the file URL pattern is the raw value of no
  emitted reference. The raw value of every emitted reference, of whichever pattern,
  ends in a dot and one of the eleven recognized extensions, in any letter case.
\<close>

theorem detect_extension_gate:
  "(\<forall>t refs seen. \<not> isAudioExtension (trim t) \<longrightarrow> addPathRef E t (refs, seen) = (refs, seen)) \<and>
   (\<forall>t. \<not> isAudioExtension t \<longrightarrow> t \<notin> set (fileUrl_matches p) \<longrightarrow>
        t \<notin> raw ` set (detectAudioReferences E p)) \<and>
   (\<forall>r \<in> set (detectAudioReferences E p). has_audio_suffix (raw r))"
proof -
  have a: "\<forall>t refs seen. \<not> isAudioExtension (trim t) \<longrightarrow> addPathRef E t (refs, seen) = (refs, seen)"
    by (simp add: addPathRef_cases admissible_def)
  from detect_decomposition [of E p] obtain ms us bs where
    eq: "detectAudioReferences E p = ms @ us @ bs"
    and ms: "\<forall>r\<in>set ms. \<exists>t\<in>set (marker_tokens p). admissible t \<and> r = path_ref E t"
    and us: "\<forall>r\<in>set us. type r = Path \<and> raw r \<in> set (fileUrl_matches p) \<and>
                    fileURLToPath E (raw r) = Inr (resolved r)"
    and bs: "\<forall>r\<in>set bs. \<exists>t\<in>set (path_tokens p). admissible t \<and> r = path_ref E t"
    by blast
  have r: "has_audio_suffix (raw r) \<and> (isAudioExtension (raw r) \<or> raw r \<in> set (fileUrl_matches p))"
    if "r \<in> set (detectAudioReferences E p)" for r
  proof -
    from that eq consider "r \<in> set ms" | "r \<in> set us" | "r \<in> set bs" by auto
    then show ?thesis
    proof cases
      case 1
      with ms obtain t where "t \<in> set (marker_tokens p)" "admissible t" "r = path_ref E t" by blast
      with marker_tokens_suffix [of t p] show ?thesis
        by (simp add: has_audio_suffix_trim admissible_def)
    next
      case 2
      with us fileUrl_matches_suffix [of "raw r" p] show ?thesis by blast
    next
      case 3
      with bs obtain t where "t \<in> set (path_tokens p)" "admissible t" "r = path_ref E t" by blast
      with path_tokens_suffix [of t p] show ?thesis
        by (simp add: has_audio_suffix_trim admissible_def)
    qed
  qed
  from a r show ?thesis by blast
qed

theorem detect_extension_gate_witness:
  "marker_tokens ''[media attached: /x/.wav] see /.mp3 and ./song.MP3 or file:///tmp/a.wav'' = [''/x/.wav''] \<and>
   path_tokens ''[media attached: /x/.wav] see /.mp3 and ./song.MP3 or file:///tmp/a.wav'' =
     [''/x/.wav'', ''/.mp3'', ''./song.MP3''] \<and>
   fileUrl_matches ''[media attached: /x/.wav] see /.mp3 and ./song.MP3 or file:///tmp/a.wav'' =
     [''file:///tmp/a.wav''] \<and>
   \<not> isAudioExtension ''/x/.wav'' \<and> \<not> isAudioExtension ''/.mp3'' \<and>
   addPathRef sample_env ''/.mp3'' ([], {}) = ([], {}) \<and>
   ''/x/.wav'' \<notin> raw ` set (detectAudioReferences sample_env
      ''[media attached: /x/.wav] see /.mp3 and ./song.MP3 or file:///tmp/a.wav'') \<and>
   ''/.mp3'' \<notin> raw ` set (detectAudioReferences sample_env
      ''[media attached: /x/.wav] see /.mp3 and ./song.MP3 or file:///tmp/a.wav'') \<and>
   map raw (detectAudioReferences sample_env
      ''[media attached: /x/.wav] see /.mp3 and ./song.MP3 or file:///tmp/a.wav'') =
     [''file:///tmp/a.wav'', ''./song.MP3''] \<and>
   has_audio_suffix ''file:///tmp/a.wav'' \<and> has_audio_suffix ''./song.MP3''"
proof -
  let ?p = "''[media attached: /x/.wav] see /.mp3 and ./song.MP3 or file:///tmp/a.wav''"
  have m: "marker_tokens ?p = [''/x/.wav'']" by code_simp
  have b: "path_tokens ?p = [''/x/.wav'', ''/.mp3'', ''./song.MP3'']" by code_simp
  have u: "fileUrl_matches ?p = [''file:///tmp/a.wav'']" by code_simp
  have x1: "\<not> isAudioExtension ''/x/.wav''" by code_simp
  have x2: "\<not> isAudioExtension ''/.mp3''" by code_simp
  have t2: "trim ''/.mp3'' = ''/.mp3''" by code_simp
  have d: "map raw (detectAudioReferences sample_env ?p) = [''file:///tmp/a.wav'', ''./song.MP3'']"
    by code_simp
  note t = detect_extension_gate [of sample_env ?p]
  from t x2 t2 have 0: "addPathRef sample_env ''/.mp3'' ([], {}) = ([], {})" by simp
  from u have n1: "''/x/.wav'' \<notin> set (fileUrl_matches ?p)" and n2: "''/.mp3'' \<notin> set (fileUrl_matches ?p)"
    by simp_all
  from t x1 n1 have 1: "''/x/.wav'' \<notin> raw ` set (detectAudioReferences sample_env ?p)" by blast
  from t x2 n2 have 2: "''/.mp3'' \<notin> raw ` set (detectAudioReferences sample_env ?p)" by blast
  from t have "\<forall>x \<in> set (map raw (detectAudioReferences sample_env ?p)). has_audio_suffix x"
    by auto
  with d have 3: "has_audio_suffix ''file:///tmp/a.wav'' \<and> has_audio_suffix ''./song.MP3''" by simp
  from m b u x1 x2 0 1 2 d 3 show ?thesis by simp
qed

text \<open>
  Claim C9, as the code has it. Every emitted reference is of kind path. A reference of
  the marker or the bare path pattern has as \<open>resolved\<close> the user-path expansion of
  \<open>raw\<close> when \<open>raw\<close> begins with \<^verbatim>\<open>~\<close>, and \<open>raw\<close> itself otherwise. A reference of the
  file URL pattern has as \<open>resolved\<close> the file system path that \<^verbatim>\<open>fileURLToPath\<close> returns
  for \<open>raw\<close>.
\<close>

theorem detect_resolved_field:
  "\<forall>r \<in> set (detectAudioReferences E p). type r = Path \<and>
     ((raw r \<in> trim ` (set (marker_tokens p) \<union> set (path_tokens p)) \<and>
       resolved r = (if startsWith (raw r) ''~'' then resolveUserPath E (raw r) else raw r)) \<or>
      (raw r \<in> set (fileUrl_matches p) \<and> fileURLToPath E (raw r) = Inr (resolved r)))"
proof
  fix r assume r: "r \<in> set (detectAudioReferences E p)"
  from detect_decomposition [of E p] obtain ms us bs where
    eq: "detectAudioReferences E p = ms @ us @ bs"
    and ms: "\<forall>r\<in>set ms. \<exists>t\<in>set (marker_tokens p). admissible t \<and> r = path_ref E t"
    and us: "\<forall>r\<in>set us. type r = Path \<and> raw r \<in> set (fileUrl_matches p) \<and>
                    fileURLToPath E (raw r) = Inr (resolved r)"
    and bs: "\<forall>r\<in>set bs. \<exists>t\<in>set (path_tokens p). admissible t \<and> r = path_ref E t"
    by blast
  from r eq consider "r \<in> set ms" | "r \<in> set us" | "r \<in> set bs" by auto
  then show "type r = Path \<and>
     ((raw r \<in> trim ` (set (marker_tokens p) \<union> set (path_tokens p)) \<and>
       resolved r = (if startsWith (raw r) ''~'' then resolveUserPath E (raw r) else raw r)) \<or>
      (raw r \<in> set (fileUrl_matches p) \<and> fileURLToPath E (raw r) = Inr (resolved r)))"
  proof cases
    case 1
    with ms obtain t where "t \<in> set (marker_tokens p)" "r = path_ref E t" by blast
    then show ?thesis by (auto simp: path_ref_def)
  next
    case 2
    with us show ?thesis by blast
  next
    case 3
    with bs obtain t where "t \<in> set (path_tokens p)" "r = path_ref E t" by blast
    then show ?thesis by (auto simp: path_ref_def)
  qed
qed


theorem detect_resolved_field_witness:
  "detectAudioReferences sample_env ''~/Music/song.mp3 and file:///tmp/a.wav'' =
     [\<lparr>raw = ''file:///tmp/a.wav'', type = Path, resolved = ''/tmp/a.wav'', messageIndex = None\<rparr>,
      \<lparr>raw = ''~/Music/song.mp3'', type = Path, resolved = ''/home/user/Music/song.mp3'',
        messageIndex = None\<rparr>] \<and>
   fileUrl_matches ''~/Music/song.mp3 and file:///tmp/a.wav'' = [''file:///tmp/a.wav''] \<and>
   fileURLToPath sample_env ''file:///tmp/a.wav'' = Inr ''/tmp/a.wav'' \<and>
   path_tokens ''~/Music/song.mp3 and file:///tmp/a.wav'' = [''~/Music/song.mp3''] \<and>
   resolveUserPath sample_env ''~/Music/song.mp3'' = ''/home/user/Music/song.mp3''"
proof -
  let ?p = "''~/Music/song.mp3 and file:///tmp/a.wav''"
  let ?u = "\<lparr>raw = ''file:///tmp/a.wav'', type = Path, resolved = ''/tmp/a.wav'', messageIndex = None\<rparr>"
  let ?h = "\<lparr>raw = ''~/Music/song.mp3'', type = Path, resolved = ''/home/user/Music/song.mp3'',
             messageIndex = None\<rparr>"
  have d: "detectAudioReferences sample_env ?p = [?u, ?h]" by code_simp
  have f: "fileUrl_matches ?p = [''file:///tmp/a.wav'']" by code_simp
  have b: "path_tokens ?p = [''~/Music/song.mp3'']" by code_simp
  have m: "marker_tokens ?p = []" by code_simp
  have nt: "\<not> startsWith ''file:///tmp/a.wav'' ''~''" "startsWith ''~/Music/song.mp3'' ''~''"
    "trim ''~/Music/song.mp3'' = ''~/Music/song.mp3''"
    by code_simp+
  from detect_resolved_field [of sample_env ?p] d
  have "(raw ?u \<in> trim ` (set (marker_tokens ?p) \<union> set (path_tokens ?p)) \<and>
         resolved ?u = (if startsWith (raw ?u) ''~'' then resolveUserPath sample_env (raw ?u) else raw ?u)) \<or>
        (raw ?u \<in> set (fileUrl_matches ?p) \<and> fileURLToPath sample_env (raw ?u) = Inr (resolved ?u))"
    and "(raw ?h \<in> trim ` (set (marker_tokens ?p) \<union> set (path_tokens ?p)) \<and>
         resolved ?h = (if startsWith (raw ?h) ''~'' then resolveUserPath sample_env (raw ?h) else raw ?h)) \<or>
        (raw ?h \<in> set (fileUrl_matches ?p) \<and> fileURLToPath sample_env (raw ?h) = Inr (resolved ?h))"
    by simp_all
  with f b m nt have "fileURLToPath sample_env ''file:///tmp/a.wav'' = Inr ''/tmp/a.wav''"
    and "resolveUserPath sample_env ''~/Music/song.mp3'' = ''/home/user/Music/song.mp3''"
    by simp_all
  with d f b show ?thesis by simp
qed

text \<open>
  Claim C9 as stated fails for a file URL: its \<open>raw\<close> is the URL and its \<open>resolved\<close> is
  the path.
\<close>

theorem detect_resolved_field_counterexample:
  "\<not> (\<forall>r \<in> set (detectAudioReferences sample_env ''file:///tmp/a.wav'').
        resolved r = (if startsWith (raw r) ''~'' then resolveUserPath sample_env (raw r) else raw r))"
  by code_simp


section \<open>Properties of the loader\<close>

lemma loadAudioFromRef_unfold:
  "loadAudioFromRef E ref ws opts h =
     (if type ref = Url then (Inr None, h)
      else case validate_target E ref opts (resolve_target E ref ws opts) h of
          (None, h1) \<Rightarrow> (Inr None, h1)
        | (Some p, h1) \<Rightarrow>
            (case fs_stat E h1 p of
               Inl err \<Rightarrow> (Inr None, h1 @ [Stat p])
             | Inr _ \<Rightarrow>
                 (case loadWebMedia E (h1 @ [Stat p]) p (options_maxBytes opts) of
                    Inl err \<Rightarrow> (Inr None, h1 @ [Stat p, LoadMedia p (options_maxBytes opts)])
                  | Inr m \<Rightarrow>
                      if kind m \<noteq> ''audio'' \<and> kind m \<noteq> ''video''
                      then (Inr None, h1 @ [Stat p, LoadMedia p (options_maxBytes opts)])
                      else (Inr (Some \<lparr>content_type = ''audio'', data = toBase64 E (buffer m),
                                       mimeType = (case contentType m of Some ct \<Rightarrow> ct
                                                   | None \<Rightarrow> ''audio/mp3'')\<rparr>),
                            h1 @ [Stat p, LoadMedia p (options_maxBytes opts)]))))"
  by (cases "type ref")
     (simp_all add: loadAudioFromRef_def loadAudioFromRef_try_def Let_def
        split: prod.splits option.splits sum.splits)

lemma loadAudioFromRef_cases:
  "(\<exists>h'. loadAudioFromRef E ref ws opts h = (Inr None, h')) \<or>
   (\<exists>p h1 m. validate_target E ref opts (resolve_target E ref ws opts) h = (Some p, h1) \<and>
      fs_stat E h1 p = Inr () \<and>
      loadWebMedia E (h1 @ [Stat p]) p (options_maxBytes opts) = Inr m \<and>
      (kind m = ''audio'' \<or> kind m = ''video'') \<and>
      loadAudioFromRef E ref ws opts h =
        (Inr (Some \<lparr>content_type = ''audio'', data = toBase64 E (buffer m),
                    mimeType = (case contentType m of Some ct \<Rightarrow> ct | None \<Rightarrow> ''audio/mp3'')\<rparr>),
         h1 @ [Stat p, LoadMedia p (options_maxBytes opts)]))"
proof (cases "type ref = Url")
  case True
  then show ?thesis by (simp add: loadAudioFromRef_unfold)
next
  case notUrl: False
  obtain v h1 where v: "validate_target E ref opts (resolve_target E ref ws opts) h = (v, h1)"
    by (cases "validate_target E ref opts (resolve_target E ref ws opts) h")
  show ?thesis
  proof (cases v)
    case None
    with notUrl v show ?thesis by (simp add: loadAudioFromRef_unfold)
  next
    case (Some p)
    show ?thesis
    proof (cases "fs_stat E h1 p")
      case (Inl err)
      with notUrl v Some show ?thesis by (simp add: loadAudioFromRef_unfold)
    next
      case st: (Inr u)
      show ?thesis
      proof (cases "loadWebMedia E (h1 @ [Stat p]) p (options_maxBytes opts)")
        case (Inl err)
        with notUrl v Some st show ?thesis by (simp add: loadAudioFromRef_unfold)
      next
        case (Inr m)
        show ?thesis
        proof (cases "kind m = ''audio'' \<or> kind m = ''video''")
          case True
          with notUrl v Some st Inr have
            "loadAudioFromRef E ref ws opts h =
               (Inr (Some \<lparr>content_type = ''audio'', data = toBase64 E (buffer m),
                    mimeType = (case contentType m of Some ct \<Rightarrow> ct | None \<Rightarrow> ''audio/mp3'')\<rparr>),
                h1 @ [Stat p, LoadMedia p (options_maxBytes opts)])"
            by (auto simp: loadAudioFromRef_unfold)
          with v Some st Inr True show ?thesis by auto
        next
          case False
          with notUrl v Some st Inr show ?thesis by (simp add: loadAudioFromRef_unfold)
        qed
      qed
    qed
  qed
qed

lemma loadAudioFromRef_Inr: "\<exists>r h'. loadAudioFromRef E ref ws opts h = (Inr r, h')"
  using loadAudioFromRef_cases [of E ref ws opts h] by blast

lemma load_loop_outcomes:
  "\<exists>h'. load_loop E params refs acc h =
     (Inr \<lparr>audio = audio acc @ List.map_filter id (load_outcomes E params refs h),
           loadedCount = loadedCount acc + length (List.map_filter id (load_outcomes E params refs h)),
           skippedCount = skippedCount acc + length (filter (\<lambda>r. r = None) (load_outcomes E params refs h))\<rparr>,
      h')"
proof (induction refs arbitrary: acc h)
  case Nil
  show ?case by simp
next
  case (Cons ref refs)
  obtain r h1 where r: "loadAudioFromRef E ref (workspaceDir params)
      (Some \<lparr>maxBytes = maxBytes params, sandboxRoot = sandboxRoot params\<rparr>) h = (Inr r, h1)"
    using loadAudioFromRef_Inr by blast
  show ?case
  proof (cases r)
    case None
    from Cons.IH [of "acc\<lparr>skippedCount := skippedCount acc + 1\<rparr>" h1] r None
    show ?thesis by simp
  next
    case (Some a)
    from Cons.IH [of "acc\<lparr>audio := audio acc @ [a], loadedCount := loadedCount acc + 1\<rparr>" h1] r Some
    show ?thesis by simp
  qed
qed

lemma length_load_outcomes: "length (load_outcomes E params refs h) = length refs"
proof (induction refs arbitrary: h)
  case Nil
  show ?case by simp
next
  case (Cons ref refs)
  obtain r h1 where "loadAudioFromRef E ref (workspaceDir params)
      (Some \<lparr>maxBytes = maxBytes params, sandboxRoot = sandboxRoot params\<rparr>) h = (Inr r, h1)"
    using loadAudioFromRef_Inr by blast
  with Cons.IH [of h1] show ?case by simp
qed

lemma length_map_filter_id:
  "length (List.map_filter id xs) + length (filter (\<lambda>r. r = None) xs) = length xs"
  by (induction xs) (auto split: option.splits)

lemma load_loop_Inr: "\<exists>res h'. load_loop E params refs acc h = (Inr res, h')"
  using load_loop_outcomes [of E params refs acc h] by blast

text \<open>
  Claim C1, as the code has it. For a reference of kind path and a sandbox root that is
  given and not the empty string, \<open>loadAudioFromRef\<close> hands the resolved path (the
  reference's own path when absolute, else resolved against the sandbox root) to the
  sandbox assertion with \<open>cwd\<close> and \<open>root\<close> both the sandbox root, before any other
  call. When the assertion rejects, the result is \<open>null\<close> and the assertion is the only
  call made: no stat, no load. When it answers a path \<open>p\<close>, the calls that follow are
  the stat of \<open>p\<close> and then at most the load of \<open>p\<close>.
\<close>

theorem sandbox_check_nonempty_root:
  assumes "type ref = Path" and "options_sandboxRoot opts = Some root" and "root \<noteq> []"
  shows "resolve_target E ref ws opts =
           (if path_isAbsolute (resolved ref) then resolved ref
            else path_resolve E root (resolved ref)) \<and>
         (case assertSandboxPath E h (resolve_target E ref ws opts) root root of
            Inl err \<Rightarrow>
              loadAudioFromRef E ref ws opts h =
                (Inr None, h @ [SandboxAssert (resolve_target E ref ws opts) root root])
          | Inr p \<Rightarrow>
              snd (loadAudioFromRef E ref ws opts h) =
                h @ [SandboxAssert (resolve_target E ref ws opts) root root, Stat p] \<or>
              snd (loadAudioFromRef E ref ws opts h) =
                h @ [SandboxAssert (resolve_target E ref ws opts) root root, Stat p,
                     LoadMedia p (options_maxBytes opts)])"
  using assms
  by (auto simp: loadAudioFromRef_unfold validate_target_def resolve_target_def
      split: sum.splits)

theorem sandbox_check_nonempty_root_witness:
  "type (sample_ref ''/ws/link.wav'') = Path \<and>
   options_sandboxRoot (sample_options (Some ''/ws'')) = Some ''/ws'' \<and>
   assertSandboxPath sample_env [] ''/ws/link.wav'' ''/ws'' ''/ws'' = Inr ''/ws/ok.wav'' \<and>
   snd (loadAudioFromRef sample_env (sample_ref ''/ws/link.wav'') ''/ws''
          (sample_options (Some ''/ws'')) []) =
     [SandboxAssert ''/ws/link.wav'' ''/ws'' ''/ws'', Stat ''/ws/ok.wav'',
      LoadMedia ''/ws/ok.wav'' None] \<and>
   assertSandboxPath sample_env [] ''/etc/secret.mp3'' ''/ws'' ''/ws'' =
     Inl (Error ''Path escapes sandbox root'') \<and>
   loadAudioFromRef sample_env (sample_ref ''/etc/secret.mp3'') ''/ws''
     (sample_options (Some ''/ws'')) [] =
     (Inr None, [SandboxAssert ''/etc/secret.mp3'' ''/ws'' ''/ws''])"
proof -
  have t1: "type (sample_ref ''/ws/link.wav'') = Path" by code_simp
  have t2: "type (sample_ref ''/etc/secret.mp3'') = Path" by code_simp
  have o: "options_sandboxRoot (sample_options (Some ''/ws'')) = Some ''/ws''" by code_simp
  have n: "''/ws'' \<noteq> []" by simp
  have r1: "resolve_target sample_env (sample_ref ''/ws/link.wav'') ''/ws''
              (sample_options (Some ''/ws'')) = ''/ws/link.wav''"
    by code_simp
  have r2: "resolve_target sample_env (sample_ref ''/etc/secret.mp3'') ''/ws''
              (sample_options (Some ''/ws'')) = ''/etc/secret.mp3''"
    by code_simp
  have a1: "assertSandboxPath sample_env [] ''/ws/link.wav'' ''/ws'' ''/ws'' = Inr ''/ws/ok.wav''"
    by code_simp
  have a2: "assertSandboxPath sample_env [] ''/etc/secret.mp3'' ''/ws'' ''/ws'' =
              Inl (Error ''Path escapes sandbox root'')"
    by code_simp
  have l: "snd (loadAudioFromRef sample_env (sample_ref ''/ws/link.wav'') ''/ws''
                  (sample_options (Some ''/ws'')) []) \<noteq>
             [SandboxAssert ''/ws/link.wav'' ''/ws'' ''/ws'', Stat ''/ws/ok.wav'']"
    by code_simp
  have m: "options_maxBytes (sample_options (Some ''/ws'')) = None" by code_simp
  from sandbox_check_nonempty_root [OF t1 o n, of sample_env "''/ws''" "[]"] r1 a1 l m
  have 1: "snd (loadAudioFromRef sample_env (sample_ref ''/ws/link.wav'') ''/ws''
                  (sample_options (Some ''/ws'')) []) =
             [SandboxAssert ''/ws/link.wav'' ''/ws'' ''/ws'', Stat ''/ws/ok.wav'',
              LoadMedia ''/ws/ok.wav'' None]"
    by simp
  from sandbox_check_nonempty_root [OF t2 o n, of sample_env "''/ws''" "[]"] r2 a2
  have 2: "loadAudioFromRef sample_env (sample_ref ''/etc/secret.mp3'') ''/ws''
             (sample_options (Some ''/ws'')) [] =
             (Inr None, [SandboxAssert ''/etc/secret.mp3'' ''/ws'' ''/ws''])"
    by simp
  from t1 o a1 a2 1 2 show ?thesis by simp
qed

text \<open>
  Claim C1 as stated fails for a sandbox root that is given as the empty string: the
  condition \<^verbatim>\<open>options?.sandboxRoot\<close> is false for it, no assertion is made, and a file
  outside any root is probed and loaded.
\<close>

theorem sandbox_check_empty_root_counterexample:
  "options_sandboxRoot (sample_options (Some [])) = Some [] \<and>
   loadAudioFromRef sample_env (sample_ref ''/etc/secret.mp3'') ''/ws'' (sample_options (Some [])) [] =
     (Inr (Some \<lparr>content_type = ''audio'', data = ''YWJj'', mimeType = ''audio/wav''\<rparr>),
      [Stat ''/etc/secret.mp3'', LoadMedia ''/etc/secret.mp3'' None])"
  by code_simp

text \<open>
  Claim C2. \<open>loadAudioFromRef\<close> never raises: for every environment, reference,
  workspace directory, options and history its result is a returned value, which is
  \<open>null\<close> or a content object with all three fields set from a load that the media
  primitive answered with kind audio or video. A reference of kind url, a rejected
  sandbox assertion, a failed stat, a failed load and a kind other than audio and video
  each give \<open>null\<close>.
\<close>

theorem loadAudioFromRef_never_raises:
  "(\<exists>r h'. loadAudioFromRef E ref ws opts h = (Inr r, h') \<and>
      (\<forall>a. r = Some a \<longrightarrow>
         (\<exists>p h1 m. loadWebMedia E h1 p (options_maxBytes opts) = Inr m \<and>
              (kind m = ''audio'' \<or> kind m = ''video'') \<and>
              a = \<lparr>content_type = ''audio'', data = toBase64 E (buffer m),
                   mimeType = (case contentType m of Some ct \<Rightarrow> ct | None \<Rightarrow> ''audio/mp3'')\<rparr>))) \<and>
   (type ref = Url \<longrightarrow> loadAudioFromRef E ref ws opts h = (Inr None, h)) \<and>
   (\<forall>root err. type ref = Path \<and> options_sandboxRoot opts = Some root \<and> root \<noteq> [] \<and>
       assertSandboxPath E h (resolve_target E ref ws opts) root root = Inl err \<longrightarrow>
       loadAudioFromRef E ref ws opts h =
         (Inr None, h @ [SandboxAssert (resolve_target E ref ws opts) root root])) \<and>
   (\<forall>p h1 err. type ref = Path \<and>
       validate_target E ref opts (resolve_target E ref ws opts) h = (Some p, h1) \<and>
       fs_stat E h1 p = Inl err \<longrightarrow>
       loadAudioFromRef E ref ws opts h = (Inr None, h1 @ [Stat p])) \<and>
   (\<forall>p h1 err. type ref = Path \<and>
       validate_target E ref opts (resolve_target E ref ws opts) h = (Some p, h1) \<and>
       fs_stat E h1 p = Inr () \<and>
       loadWebMedia E (h1 @ [Stat p]) p (options_maxBytes opts) = Inl err \<longrightarrow>
       loadAudioFromRef E ref ws opts h =
         (Inr None, h1 @ [Stat p, LoadMedia p (options_maxBytes opts)])) \<and>
   (\<forall>p h1 m. type ref = Path \<and>
       validate_target E ref opts (resolve_target E ref ws opts) h = (Some p, h1) \<and>
       fs_stat E h1 p = Inr () \<and>
       loadWebMedia E (h1 @ [Stat p]) p (options_maxBytes opts) = Inr m \<and>
       kind m \<noteq> ''audio'' \<and> kind m \<noteq> ''video'' \<longrightarrow>
       loadAudioFromRef E ref ws opts h =
         (Inr None, h1 @ [Stat p, LoadMedia p (options_maxBytes opts)]))"
proof -
  have ok: "\<exists>r h'. loadAudioFromRef E ref ws opts h = (Inr r, h') \<and>
      (\<forall>a. r = Some a \<longrightarrow>
         (\<exists>p h1 m. loadWebMedia E h1 p (options_maxBytes opts) = Inr m \<and>
              (kind m = ''audio'' \<or> kind m = ''video'') \<and>
              a = \<lparr>content_type = ''audio'', data = toBase64 E (buffer m),
                   mimeType = (case contentType m of Some ct \<Rightarrow> ct | None \<Rightarrow> ''audio/mp3'')\<rparr>))"
  proof -
    from loadAudioFromRef_cases [of E ref ws opts h]
    consider (null) h' where "loadAudioFromRef E ref ws opts h = (Inr None, h')"
      | (content) p h1 m where
          "loadWebMedia E (h1 @ [Stat p]) p (options_maxBytes opts) = Inr m"
          "kind m = ''audio'' \<or> kind m = ''video''"
          "loadAudioFromRef E ref ws opts h =
             (Inr (Some \<lparr>content_type = ''audio'', data = toBase64 E (buffer m),
                         mimeType = (case contentType m of Some ct \<Rightarrow> ct | None \<Rightarrow> ''audio/mp3'')\<rparr>),
              h1 @ [Stat p, LoadMedia p (options_maxBytes opts)])"
      by blast
    then show ?thesis
    proof cases
      case null
      then show ?thesis by simp
    next
      case content
      then show ?thesis by auto
    qed
  qed
  show ?thesis
    by (intro conjI allI impI, rule ok)
       (simp_all add: loadAudioFromRef_unfold validate_target_def)
qed

theorem loadAudioFromRef_never_raises_witness:
  "loadAudioFromRef sample_env
     \<lparr>raw = ''https://host/a.mp3'', type = Url, resolved = ''https://host/a.mp3'', messageIndex = None\<rparr>
     ''/ws'' (sample_options (Some ''/ws'')) [] = (Inr None, []) \<and>
   loadAudioFromRef sample_env (sample_ref ''/etc/secret.mp3'') ''/ws''
     (sample_options (Some ''/ws'')) [] =
     (Inr None, [SandboxAssert ''/etc/secret.mp3'' ''/ws'' ''/ws'']) \<and>
   loadAudioFromRef sample_env (sample_ref ''/ws/gone.mp3'') ''/ws''
     (sample_options (Some ''/ws'')) [] =
     (Inr None, [SandboxAssert ''/ws/gone.mp3'' ''/ws'' ''/ws'', Stat ''/ws/gone.mp3'']) \<and>
   loadAudioFromRef sample_env (sample_ref ''/ws/big.mp3'') ''/ws''
     (sample_options (Some ''/ws'')) [] =
     (Inr None, [SandboxAssert ''/ws/big.mp3'' ''/ws'' ''/ws'', Stat ''/ws/big.mp3'',
                 LoadMedia ''/ws/big.mp3'' None]) \<and>
   loadAudioFromRef sample_env (sample_ref ''/ws/pic.mp3'') ''/ws''
     (sample_options (Some ''/ws'')) [] =
     (Inr None, [SandboxAssert ''/ws/pic.mp3'' ''/ws'' ''/ws'', Stat ''/ws/pic.mp3'',
                 LoadMedia ''/ws/pic.mp3'' None])"
proof -
  let ?o = "sample_options (Some ''/ws'')"
  let ?u = "\<lparr>raw = ''https://host/a.mp3'', type = Url, resolved = ''https://host/a.mp3'',
             messageIndex = None\<rparr>"
  have m: "options_maxBytes ?o = None" by code_simp
  have "type ?u = Url" by simp
  with loadAudioFromRef_never_raises [of sample_env ?u "''/ws''" ?o "[]"]
  have 1: "loadAudioFromRef sample_env ?u ''/ws'' ?o [] = (Inr None, [])"
    by blast
  have "type (sample_ref ''/etc/secret.mp3'') = Path \<and> options_sandboxRoot ?o = Some ''/ws'' \<and>
        ''/ws'' \<noteq> [] \<and>
        assertSandboxPath sample_env [] (resolve_target sample_env (sample_ref ''/etc/secret.mp3'') ''/ws'' ?o)
          ''/ws'' ''/ws'' = Inl (Error ''Path escapes sandbox root'')"
    by code_simp
  with loadAudioFromRef_never_raises [of sample_env "sample_ref ''/etc/secret.mp3''" "''/ws''" ?o "[]"]
  have "loadAudioFromRef sample_env (sample_ref ''/etc/secret.mp3'') ''/ws'' ?o [] =
          (Inr None, [] @ [SandboxAssert (resolve_target sample_env (sample_ref ''/etc/secret.mp3'') ''/ws'' ?o)
                             ''/ws'' ''/ws''])"
    by blast
  moreover have "resolve_target sample_env (sample_ref ''/etc/secret.mp3'') ''/ws'' ?o = ''/etc/secret.mp3''"
    by code_simp
  ultimately have 2: "loadAudioFromRef sample_env (sample_ref ''/etc/secret.mp3'') ''/ws'' ?o [] =
          (Inr None, [SandboxAssert ''/etc/secret.mp3'' ''/ws'' ''/ws''])"
    by simp
  have "type (sample_ref ''/ws/gone.mp3'') = Path \<and>
        validate_target sample_env (sample_ref ''/ws/gone.mp3'') ?o
          (resolve_target sample_env (sample_ref ''/ws/gone.mp3'') ''/ws'' ?o) [] =
          (Some ''/ws/gone.mp3'', [SandboxAssert ''/ws/gone.mp3'' ''/ws'' ''/ws'']) \<and>
        fs_stat sample_env [SandboxAssert ''/ws/gone.mp3'' ''/ws'' ''/ws''] ''/ws/gone.mp3'' =
          Inl (Error ''ENOENT'')"
    by code_simp
  with loadAudioFromRef_never_raises [of sample_env "sample_ref ''/ws/gone.mp3''" "''/ws''" ?o "[]"]
  have "loadAudioFromRef sample_env (sample_ref ''/ws/gone.mp3'') ''/ws'' ?o [] =
          (Inr None, [SandboxAssert ''/ws/gone.mp3'' ''/ws'' ''/ws''] @ [Stat ''/ws/gone.mp3''])"
    by blast
  then have 3: "loadAudioFromRef sample_env (sample_ref ''/ws/gone.mp3'') ''/ws'' ?o [] =
          (Inr None, [SandboxAssert ''/ws/gone.mp3'' ''/ws'' ''/ws'', Stat ''/ws/gone.mp3''])"
    by simp
  have "type (sample_ref ''/ws/big.mp3'') = Path \<and>
        validate_target sample_env (sample_ref ''/ws/big.mp3'') ?o
          (resolve_target sample_env (sample_ref ''/ws/big.mp3'') ''/ws'' ?o) [] =
          (Some ''/ws/big.mp3'', [SandboxAssert ''/ws/big.mp3'' ''/ws'' ''/ws'']) \<and>
        fs_stat sample_env [SandboxAssert ''/ws/big.mp3'' ''/ws'' ''/ws''] ''/ws/big.mp3'' = Inr () \<and>
        loadWebMedia sample_env ([SandboxAssert ''/ws/big.mp3'' ''/ws'' ''/ws''] @ [Stat ''/ws/big.mp3''])
          ''/ws/big.mp3'' (options_maxBytes ?o) = Inl (Error ''Media exceeds the byte limit'')"
    by code_simp
  with loadAudioFromRef_never_raises [of sample_env "sample_ref ''/ws/big.mp3''" "''/ws''" ?o "[]"]
  have "loadAudioFromRef sample_env (sample_ref ''/ws/big.mp3'') ''/ws'' ?o [] =
          (Inr None, [SandboxAssert ''/ws/big.mp3'' ''/ws'' ''/ws''] @
                     [Stat ''/ws/big.mp3'', LoadMedia ''/ws/big.mp3'' (options_maxBytes ?o)])"
    by blast
  with m have 4: "loadAudioFromRef sample_env (sample_ref ''/ws/big.mp3'') ''/ws'' ?o [] =
          (Inr None, [SandboxAssert ''/ws/big.mp3'' ''/ws'' ''/ws'', Stat ''/ws/big.mp3'',
                      LoadMedia ''/ws/big.mp3'' None])"
    by simp
  have "type (sample_ref ''/ws/pic.mp3'') = Path \<and>
        validate_target sample_env (sample_ref ''/ws/pic.mp3'') ?o
          (resolve_target sample_env (sample_ref ''/ws/pic.mp3'') ''/ws'' ?o) [] =
          (Some ''/ws/pic.mp3'', [SandboxAssert ''/ws/pic.mp3'' ''/ws'' ''/ws'']) \<and>
        fs_stat sample_env [SandboxAssert ''/ws/pic.mp3'' ''/ws'' ''/ws''] ''/ws/pic.mp3'' = Inr () \<and>
        loadWebMedia sample_env ([SandboxAssert ''/ws/pic.mp3'' ''/ws'' ''/ws''] @ [Stat ''/ws/pic.mp3''])
          ''/ws/pic.mp3'' (options_maxBytes ?o) =
          Inr \<lparr>kind = ''image'', contentType = Some ''image/png'', buffer = ''abc''\<rparr> \<and>
        kind \<lparr>kind = ''image'', contentType = Some ''image/png'', buffer = ''abc''\<rparr> \<noteq> ''audio'' \<and>
        kind \<lparr>kind = ''image'', contentType = Some ''image/png'', buffer = ''abc''\<rparr> \<noteq> ''video''"
    by code_simp
  with loadAudioFromRef_never_raises [of sample_env "sample_ref ''/ws/pic.mp3''" "''/ws''" ?o "[]"]
  have "loadAudioFromRef sample_env (sample_ref ''/ws/pic.mp3'') ''/ws'' ?o [] =
          (Inr None, [SandboxAssert ''/ws/pic.mp3'' ''/ws'' ''/ws''] @
                     [Stat ''/ws/pic.mp3'', LoadMedia ''/ws/pic.mp3'' (options_maxBytes ?o)])"
    by blast
  with m have 5: "loadAudioFromRef sample_env (sample_ref ''/ws/pic.mp3'') ''/ws'' ?o [] =
          (Inr None, [SandboxAssert ''/ws/pic.mp3'' ''/ws'' ''/ws'', Stat ''/ws/pic.mp3'',
                      LoadMedia ''/ws/pic.mp3'' None])"
    by simp
  from 1 2 3 4 5 show ?thesis by simp
qed

text \<open>
  Claim C10. Without a sandbox root, \<open>loadAudioFromRef\<close> makes no containment check:
  for a reference of kind path whose target (the reference's own path when absolute,
  else resolved against the workspace directory) exists and loads as audio or video,
  the calls are the stat and the load of that target and the content is returned.
  For an absolute path the workspace directory plays no part.
\<close>

theorem no_containment_without_sandboxRoot:
  assumes "options_sandboxRoot opts = None" and "type ref = Path"
    and "p = (if path_isAbsolute (resolved ref) then resolved ref
              else path_resolve E ws (resolved ref))"
    and "fs_stat E h p = Inr ()"
    and "loadWebMedia E (h @ [Stat p]) p (options_maxBytes opts) = Inr m"
    and "kind m = ''audio'' \<or> kind m = ''video''"
  shows "loadAudioFromRef E ref ws opts h =
           (Inr (Some \<lparr>content_type = ''audio'', data = toBase64 E (buffer m),
                       mimeType = (case contentType m of Some ct \<Rightarrow> ct | None \<Rightarrow> ''audio/mp3'')\<rparr>),
            h @ [Stat p, LoadMedia p (options_maxBytes opts)])"
  using assms
  by (auto simp: loadAudioFromRef_unfold validate_target_def resolve_target_def)


theorem no_containment_without_sandboxRoot_witness:
  "options_sandboxRoot (sample_options None) = None \<and>
   path_isAbsolute (resolved (sample_ref ''/etc/secret.mp3'')) \<and>
   loadAudioFromRef sample_env (sample_ref ''/etc/secret.mp3'') ''/ws'' (sample_options None) [] =
     (Inr (Some \<lparr>content_type = ''audio'', data = ''YWJj'', mimeType = ''audio/wav''\<rparr>),
      [Stat ''/etc/secret.mp3'', LoadMedia ''/etc/secret.mp3'' None])"
proof -
  let ?m = "\<lparr>kind = ''audio'', contentType = Some ''audio/wav'', buffer = ''abc''\<rparr>"
  have o: "options_sandboxRoot (sample_options None) = None" by code_simp
  have t: "type (sample_ref ''/etc/secret.mp3'') = Path" by code_simp
  have a: "path_isAbsolute (resolved (sample_ref ''/etc/secret.mp3''))" by code_simp
  have p: "''/etc/secret.mp3'' =
             (if path_isAbsolute (resolved (sample_ref ''/etc/secret.mp3''))
              then resolved (sample_ref ''/etc/secret.mp3'')
              else path_resolve sample_env ''/ws'' (resolved (sample_ref ''/etc/secret.mp3'')))"
    by code_simp
  have s: "fs_stat sample_env [] ''/etc/secret.mp3'' = Inr ()" by code_simp
  have l: "loadWebMedia sample_env ([] @ [Stat ''/etc/secret.mp3'']) ''/etc/secret.mp3''
             (options_maxBytes (sample_options None)) = Inr ?m"
    by code_simp
  have k: "kind ?m = ''audio'' \<or> kind ?m = ''video''" by simp
  have b: "toBase64 sample_env (buffer ?m) = ''YWJj''" by code_simp
  have mb: "options_maxBytes (sample_options None) = None" by code_simp
  from no_containment_without_sandboxRoot [OF o t p s l k] b mb o a show ?thesis by simp
qed

section \<open>Properties of the batch\<close>

text \<open>
  Claim C4. \<open>modelSupportsAudio\<close> is true exactly when the input list is present and
  contains \<^verbatim>\<open>audio\<close> or \<^verbatim>\<open>image\<close>; when it is false, \<open>detectAndLoadPromptAudio\<close>
  returns the empty result with both counts zero and calls nothing, whatever the prompt
  and the carried audio are.
\<close>

theorem modelSupportsAudio_gate:
  "modelSupportsAudio m = (\<exists>xs. input m = Some xs \<and> (''audio'' \<in> set xs \<or> ''image'' \<in> set xs)) \<and>
   (\<not> modelSupportsAudio (model params) \<longrightarrow>
      detectAndLoadPromptAudio E params h = (Inr \<lparr>audio = [], loadedCount = 0, skippedCount = 0\<rparr>, h))"
  by (simp add: modelSupportsAudio_def detectAndLoadPromptAudio_def split: option.splits)

theorem modelSupportsAudio_gate_witness:
  "\<not> modelSupportsAudio (model (sample_params ''listen to /ws/ok.wav'' None [''text''])) \<and>
   detectAudioReferences sample_env (prompt (sample_params ''listen to /ws/ok.wav'' None [''text''])) =
     [sample_ref ''/ws/ok.wav''] \<and>
   existingAudio (sample_params ''listen to /ws/ok.wav'' None [''text'']) \<noteq> None \<and>
   detectAndLoadPromptAudio sample_env (sample_params ''listen to /ws/ok.wav'' None [''text'']) [] =
     (Inr \<lparr>audio = [], loadedCount = 0, skippedCount = 0\<rparr>, [])"
proof -
  let ?p = "sample_params ''listen to /ws/ok.wav'' None [''text'']"
  have g: "\<not> modelSupportsAudio (model ?p)" by code_simp
  have d: "detectAudioReferences sample_env (prompt ?p) = [sample_ref ''/ws/ok.wav'']"
    by code_simp
  have e: "existingAudio ?p \<noteq> None" by code_simp
  from modelSupportsAudio_gate [of "model ?p" ?p sample_env "[]"] g d e show ?thesis by blast
qed

text \<open>
  Claim C7. For a qualifying model and a prompt in which no reference is detected,
  \<open>detectAndLoadPromptAudio\<close> returns the carried audio (the empty list when none was
  given) with both counts zero, and the history is unchanged: the loader and its
  primitives are not called.
\<close>

theorem no_references_returns_existing:
  assumes "modelSupportsAudio (model params)"
    and "detectAudioReferences E (prompt params) = []"
  shows "detectAndLoadPromptAudio E params h =
           (Inr \<lparr>audio = (case existingAudio params of Some a \<Rightarrow> a | None \<Rightarrow> []),
                 loadedCount = 0, skippedCount = 0\<rparr>, h)"
  using assms by (simp add: detectAndLoadPromptAudio_def)

theorem no_references_returns_existing_witness:
  "modelSupportsAudio (model (sample_params ''nothing to hear in notes.txt'' None [''text'', ''audio''])) \<and>
   detectAudioReferences sample_env
     (prompt (sample_params ''nothing to hear in notes.txt'' None [''text'', ''audio''])) = [] \<and>
   detectAndLoadPromptAudio sample_env
     (sample_params ''nothing to hear in notes.txt'' None [''text'', ''audio'']) [] =
     (Inr \<lparr>audio = [\<lparr>content_type = ''audio'', data = ''AAAA'', mimeType = ''audio/ogg''\<rparr>],
           loadedCount = 0, skippedCount = 0\<rparr>, [])"
proof -
  let ?p = "sample_params ''nothing to hear in notes.txt'' None [''text'', ''audio'']"
  have g: "modelSupportsAudio (model ?p)" by code_simp
  have d: "detectAudioReferences sample_env (prompt ?p) = []" by code_simp
  have e: "existingAudio ?p = Some [\<lparr>content_type = ''audio'', data = ''AAAA'', mimeType = ''audio/ogg''\<rparr>]"
    by code_simp
  from no_references_returns_existing [OF g d, of "[]"] g d e show ?thesis by simp
qed

text \<open>
  Claim C5. For a qualifying model and at least one detected reference, the batch
  returns; every reference counts once, as loaded when the loader answered a content
  object and as skipped when it answered \<open>null\<close>, so the two counts add up to the number
  of references; and the audio list is the carried audio followed by the loaded
  contents in detection order.
\<close>

theorem batch_counts_and_order:
  assumes "modelSupportsAudio (model params)"
    and "detectAudioReferences E (prompt params) \<noteq> []"
  shows "\<exists>res h'. detectAndLoadPromptAudio E params h = (Inr res, h') \<and>
           loadedCount res + skippedCount res = length (detectAudioReferences E (prompt params)) \<and>
           audio res = (case existingAudio params of Some a \<Rightarrow> a | None \<Rightarrow> []) @
                       List.map_filter id (load_outcomes E params (detectAudioReferences E (prompt params)) h) \<and>
           loadedCount res =
             length (List.map_filter id (load_outcomes E params (detectAudioReferences E (prompt params)) h)) \<and>
           skippedCount res =
             length (filter (\<lambda>r. r = None) (load_outcomes E params (detectAudioReferences E (prompt params)) h))"
proof -
  let ?refs = "detectAudioReferences E (prompt params)"
  let ?acc = "\<lparr>audio = (case existingAudio params of Some a \<Rightarrow> a | None \<Rightarrow> []),
               loadedCount = 0, skippedCount = 0\<rparr>"
  from assms have "detectAndLoadPromptAudio E params h = load_loop E params ?refs ?acc h"
    by (simp add: detectAndLoadPromptAudio_def Let_def)
  moreover from load_loop_outcomes [of E params ?refs ?acc h] obtain h' where
    "load_loop E params ?refs ?acc h =
       (Inr \<lparr>audio = audio ?acc @ List.map_filter id (load_outcomes E params ?refs h),
             loadedCount = loadedCount ?acc + length (List.map_filter id (load_outcomes E params ?refs h)),
             skippedCount = skippedCount ?acc + length (filter (\<lambda>r. r = None) (load_outcomes E params ?refs h))\<rparr>,
        h')"
    by blast
  ultimately show ?thesis
    using length_map_filter_id [of "load_outcomes E params ?refs h"]
      length_load_outcomes [of E params ?refs h]
    by simp
qed

theorem batch_counts_and_order_witness:
  "modelSupportsAudio (model (sample_params ''play ./ok.wav /ws/gone.mp3 /ws/clip.mp4'' (Some ''/ws'') [''image''])) \<and>
   length (detectAudioReferences sample_env
     (prompt (sample_params ''play ./ok.wav /ws/gone.mp3 /ws/clip.mp4'' (Some ''/ws'') [''image'']))) = 3 \<and>
   (\<exists>res h'. detectAndLoadPromptAudio sample_env
        (sample_params ''play ./ok.wav /ws/gone.mp3 /ws/clip.mp4'' (Some ''/ws'') [''image'']) [] = (Inr res, h') \<and>
      loadedCount res = 2 \<and> skippedCount res = 1 \<and>
      audio res = [\<lparr>content_type = ''audio'', data = ''AAAA'', mimeType = ''audio/ogg''\<rparr>,
                   \<lparr>content_type = ''audio'', data = ''YWJj'', mimeType = ''audio/wav''\<rparr>,
                   \<lparr>content_type = ''audio'', data = ''YWJj'', mimeType = ''audio/mp3''\<rparr>])"
proof -
  let ?p = "sample_params ''play ./ok.wav /ws/gone.mp3 /ws/clip.mp4'' (Some ''/ws'') [''image'']"
  have g: "modelSupportsAudio (model ?p)" by code_simp
  have n: "detectAudioReferences sample_env (prompt ?p) \<noteq> []" by code_simp
  have c: "length (detectAudioReferences sample_env (prompt ?p)) = 3" by code_simp
  have e: "(case existingAudio ?p of Some a \<Rightarrow> a | None \<Rightarrow> []) =
             [\<lparr>content_type = ''audio'', data = ''AAAA'', mimeType = ''audio/ogg''\<rparr>]"
    by code_simp
  have o: "load_outcomes sample_env ?p (detectAudioReferences sample_env (prompt ?p)) [] =
             [Some \<lparr>content_type = ''audio'', data = ''YWJj'', mimeType = ''audio/wav''\<rparr>, None,
              Some \<lparr>content_type = ''audio'', data = ''YWJj'', mimeType = ''audio/mp3''\<rparr>]"
    by code_simp
  from batch_counts_and_order [OF g n, of "[]"] obtain res h' where
    "detectAndLoadPromptAudio sample_env ?p [] = (Inr res, h')"
    "audio res = (case existingAudio ?p of Some a \<Rightarrow> a | None \<Rightarrow> []) @
       List.map_filter id (load_outcomes sample_env ?p (detectAudioReferences sample_env (prompt ?p)) [])"
    "loadedCount res =
       length (List.map_filter id (load_outcomes sample_env ?p (detectAudioReferences sample_env (prompt ?p)) []))"
    "skippedCount res =
       length (filter (\<lambda>r. r = None) (load_outcomes sample_env ?p (detectAudioReferences sample_env (prompt ?p)) []))"
    by blast
  with e o have "detectAndLoadPromptAudio sample_env ?p [] = (Inr res, h') \<and>
      loadedCount res = 2 \<and> skippedCount res = 1 \<and>
      audio res = [\<lparr>content_type = ''audio'', data = ''AAAA'', mimeType = ''audio/ogg''\<rparr>,
                   \<lparr>content_type = ''audio'', data = ''YWJj'', mimeType = ''audio/wav''\<rparr>,
                   \<lparr>content_type = ''audio'', data = ''YWJj'', mimeType = ''audio/mp3''\<rparr>]"
    by simp
  with g c show ?thesis by blast
qed

text \<open>
  Claim C6, as the code has it. The call of the media primitive stands inside the outer
  \<^verbatim>\<open>try\<close> of \<open>loadAudioFromRef\<close>: when the primitive fails for a reference that passed
  resolution, validation and the existence probe, the loader returns \<open>null\<close>, the batch
  loop counts the reference as skipped and goes on with the next one, and
  \<open>detectAndLoadPromptAudio\<close> returns a result. No error reaches its caller.
\<close>

theorem byte_load_failure_is_skipped:
  assumes "type ref = Path"
    and "validate_target E ref opts (resolve_target E ref ws opts) h = (Some p, h1)"
    and "fs_stat E h1 p = Inr ()"
    and "loadWebMedia E (h1 @ [Stat p]) p (options_maxBytes opts) = Inl err"
    and "ws = workspaceDir params"
    and "opts = Some \<lparr>maxBytes = maxBytes params, sandboxRoot = sandboxRoot params\<rparr>"
  shows "loadAudioFromRef E ref ws opts h =
           (Inr None, h1 @ [Stat p, LoadMedia p (options_maxBytes opts)]) \<and>
         load_loop E params (ref # refs) acc h =
           load_loop E params refs (acc\<lparr>skippedCount := skippedCount acc + 1\<rparr>)
             (h1 @ [Stat p, LoadMedia p (options_maxBytes opts)]) \<and>
         (\<exists>res h'. detectAndLoadPromptAudio E params h0 = (Inr res, h'))"
proof -
  from assms(1-4) have l: "loadAudioFromRef E ref ws opts h =
      (Inr None, h1 @ [Stat p, LoadMedia p (options_maxBytes opts)])"
    by (simp add: loadAudioFromRef_unfold)
  with assms(5,6) have "load_loop E params (ref # refs) acc h =
      load_loop E params refs (acc\<lparr>skippedCount := skippedCount acc + 1\<rparr>)
        (h1 @ [Stat p, LoadMedia p (options_maxBytes opts)])"
    by simp
  moreover have "\<exists>res h'. detectAndLoadPromptAudio E params h0 = (Inr res, h')"
    using load_loop_Inr by (simp add: detectAndLoadPromptAudio_def Let_def)
  ultimately show ?thesis using l by simp
qed

theorem byte_load_failure_is_skipped_witness:
  "loadWebMedia sample_env [SandboxAssert ''/ws/big.mp3'' ''/ws'' ''/ws'', Stat ''/ws/big.mp3'']
     ''/ws/big.mp3'' None = Inl (Error ''Media exceeds the byte limit'') \<and>
   loadAudioFromRef sample_env (sample_ref ''/ws/big.mp3'') ''/ws'' (sample_options (Some ''/ws'')) [] =
     (Inr None, [SandboxAssert ''/ws/big.mp3'' ''/ws'' ''/ws'', Stat ''/ws/big.mp3'',
                 LoadMedia ''/ws/big.mp3'' None]) \<and>
   (\<exists>res h'. detectAndLoadPromptAudio sample_env
      (sample_params ''/ws/big.mp3'' (Some ''/ws'') [''audio'']) [] = (Inr res, h'))"
proof -
  let ?o = "sample_options (Some ''/ws'')"
  let ?r = "sample_ref ''/ws/big.mp3''"
  let ?p = "sample_params ''/ws/big.mp3'' (Some ''/ws'') [''audio'']"
  let ?h1 = "[SandboxAssert ''/ws/big.mp3'' ''/ws'' ''/ws'']"
  have t: "type ?r = Path" by code_simp
  have v: "validate_target sample_env ?r ?o (resolve_target sample_env ?r ''/ws'' ?o) [] =
             (Some ''/ws/big.mp3'', ?h1)"
    by code_simp
  have s: "fs_stat sample_env ?h1 ''/ws/big.mp3'' = Inr ()" by code_simp
  have l: "loadWebMedia sample_env (?h1 @ [Stat ''/ws/big.mp3'']) ''/ws/big.mp3'' (options_maxBytes ?o) =
             Inl (Error ''Media exceeds the byte limit'')"
    by code_simp
  have w: "''/ws'' = workspaceDir ?p" by code_simp
  have o: "?o = Some \<lparr>maxBytes = maxBytes ?p, sandboxRoot = sandboxRoot ?p\<rparr>" by code_simp
  have m: "options_maxBytes ?o = None" by code_simp
  from byte_load_failure_is_skipped [OF t v s l w o, of "[]" "\<lparr>audio = [], loadedCount = 0, skippedCount = 0\<rparr>" "[]"]
    l m
  show ?thesis by simp
qed

text \<open>
  Claim C6 as stated fails: the media primitive fails for \<^verbatim>\<open>/ws/big.mp3\<close>, which passed
  the sandbox check and the stat, and the batch returns normally with one skip.
\<close>

theorem byte_load_failure_counterexample:
  "fs_stat sample_env [SandboxAssert ''/ws/big.mp3'' ''/ws'' ''/ws''] ''/ws/big.mp3'' = Inr () \<and>
   loadWebMedia sample_env [SandboxAssert ''/ws/big.mp3'' ''/ws'' ''/ws'', Stat ''/ws/big.mp3'']
     ''/ws/big.mp3'' None = Inl (Error ''Media exceeds the byte limit'') \<and>
   loadAudioFromRef sample_env (sample_ref ''/ws/big.mp3'') ''/ws'' (sample_options (Some ''/ws'')) [] =
     (Inr None, [SandboxAssert ''/ws/big.mp3'' ''/ws'' ''/ws'', Stat ''/ws/big.mp3'',
                 LoadMedia ''/ws/big.mp3'' None]) \<and>
   detectAndLoadPromptAudio sample_env (sample_params ''/ws/big.mp3'' (Some ''/ws'') [''audio'']) [] =
     (Inr \<lparr>audio = [\<lparr>content_type = ''audio'', data = ''AAAA'', mimeType = ''audio/ogg''\<rparr>],
           loadedCount = 0, skippedCount = 1\<rparr>,
      [SandboxAssert ''/ws/big.mp3'' ''/ws'' ''/ws'', Stat ''/ws/big.mp3'',
       LoadMedia ''/ws/big.mp3'' None])"
  by code_simp


end
